theory Spec2Isabelle
  imports Complex_Main "HOL-Library.Word"
begin

unbundle bit_operations_syntax

section \<open>Go values used by hyperloglog.go\<close>

text \<open>
  \<open>uint32\<close> is a 32-bit word. Go's \<open>int\<close> and \<open>int64\<close> are mathematical integers
  kept in the 64-bit signed range: \<open>wrap64\<close> is written where Go's arithmetic wraps.
\<close>

type_synonym uint32 = "32 word"

definition wrap64 :: "int \<Rightarrow> int" where
  "wrap64 x = sint (word_of_int x :: 64 word)"

text \<open>
  A \<open>float64\<close> is either a finite number or one of the IEEE-754 special values. Finite
  results are kept as exact reals: rounding, overflow to infinity, underflow and the
  sign of zero are not modelled. The special values follow IEEE-754 and the special
  cases documented for Go's \<open>math\<close> package.
\<close>

datatype float64 = Finite real | PosInf | NegInf | NaN

text \<open>The infinity (or NaN) that a non-finite product or quotient has, from a sign.\<close>

definition inf_signed :: "real \<Rightarrow> float64" where
  "inf_signed s = (if s = 0 then NaN else if 0 < s then PosInf else NegInf)"

fun fadd :: "float64 \<Rightarrow> float64 \<Rightarrow> float64" where
  "fadd (Finite x) (Finite y) = Finite (x + y)"
| "fadd NaN _ = NaN"
| "fadd _ NaN = NaN"
| "fadd PosInf NegInf = NaN"
| "fadd NegInf PosInf = NaN"
| "fadd PosInf _ = PosInf"
| "fadd _ PosInf = PosInf"
| "fadd NegInf _ = NegInf"
| "fadd _ NegInf = NegInf"

fun fmul :: "float64 \<Rightarrow> float64 \<Rightarrow> float64" where
  "fmul (Finite x) (Finite y) = Finite (x * y)"
| "fmul NaN _ = NaN"
| "fmul _ NaN = NaN"
| "fmul PosInf (Finite y) = inf_signed y"
| "fmul NegInf (Finite y) = inf_signed (- y)"
| "fmul (Finite x) PosInf = inf_signed x"
| "fmul (Finite x) NegInf = inf_signed (- x)"
| "fmul PosInf PosInf = PosInf"
| "fmul NegInf NegInf = PosInf"
| "fmul PosInf NegInf = NegInf"
| "fmul NegInf PosInf = NegInf"

text \<open>
  Floating-point division never traps: a nonzero finite number divided by zero is an
  infinity, and \<open>0 / 0\<close> is NaN.
\<close>

fun fdiv :: "float64 \<Rightarrow> float64 \<Rightarrow> float64" where
  "fdiv (Finite x) (Finite y) = (if y = 0 then inf_signed x else Finite (x / y))"
| "fdiv NaN _ = NaN"
| "fdiv _ NaN = NaN"
| "fdiv (Finite x) _ = Finite 0"
| "fdiv PosInf (Finite y) = (if y < 0 then NegInf else PosInf)"
| "fdiv NegInf (Finite y) = (if y < 0 then PosInf else NegInf)"
| "fdiv _ _ = NaN"

text \<open>The comparison \<open><=\<close>: false as soon as one side is NaN.\<close>

fun fle :: "float64 \<Rightarrow> float64 \<Rightarrow> bool" where
  "fle (Finite x) (Finite y) = (x \<le> y)"
| "fle NaN _ = False"
| "fle _ NaN = False"
| "fle NegInf _ = True"
| "fle _ PosInf = True"
| "fle _ _ = False"

text \<open>
  \<open>math.Log\<close> and \<open>math.Log2\<close>, with their documented special cases:
  \<open>Log(+Inf) = +Inf\<close>, \<open>Log(0) = -Inf\<close>, \<open>Log(x < 0) = NaN\<close>, \<open>Log(NaN) = NaN\<close>.
\<close>

fun Log :: "float64 \<Rightarrow> float64" where
  "Log (Finite x) = (if x = 0 then NegInf else if x < 0 then NaN else Finite (ln x))"
| "Log PosInf = PosInf"
| "Log NegInf = NaN"
| "Log NaN = NaN"

fun Log2 :: "float64 \<Rightarrow> float64" where
  "Log2 (Finite x) = (if x = 0 then NegInf else if x < 0 then NaN else Finite (log 2 x))"
| "Log2 PosInf = PosInf"
| "Log2 NegInf = NaN"
| "Log2 NaN = NaN"

text \<open>\<open>math.Pow(2, y)\<close>: 2 is the only base the source raises to a power.\<close>

fun Pow2 :: "float64 \<Rightarrow> float64" where
  "Pow2 (Finite y) = Finite (2 powr y)"
| "Pow2 PosInf = PosInf"
| "Pow2 NegInf = Finite 0"
| "Pow2 NaN = NaN"

definition float64_of_uint32 :: "uint32 \<Rightarrow> float64" where
  "float64_of_uint32 w = Finite (real (unat w))"

definition float64_of_int :: "int \<Rightarrow> float64" where
  "float64_of_int i = Finite (real_of_int i)"

text \<open>
  Converting a float to an integer discards the fraction. Where the result type cannot
  represent the value (the infinities, NaN, a number out of range) the Go specification
  says that the conversion succeeds and that its result is implementation-dependent:
  the \<open>platform\<close> gives that result, as the bits the conversion leaves.
\<close>

definition go_trunc :: "real \<Rightarrow> int" where
  "go_trunc x = (if 0 \<le> x then \<lfloor>x\<rfloor> else \<lceil>x\<rceil>)"

record platform =
  conv_int64 :: "float64 \<Rightarrow> 64 word"
  conv_uint32 :: "float64 \<Rightarrow> 32 word"

definition int_of_float64 :: "platform \<Rightarrow> float64 \<Rightarrow> int" where
  "int_of_float64 pf f =
     (case f of
        Finite x \<Rightarrow>
          if - (2 ^ 63) \<le> go_trunc x \<and> go_trunc x < 2 ^ 63 then go_trunc x
          else sint (conv_int64 pf f)
      | _ \<Rightarrow> sint (conv_int64 pf f))"

definition uint32_of_float64 :: "platform \<Rightarrow> float64 \<Rightarrow> uint32" where
  "uint32_of_float64 pf f =
     (case f of
        Finite x \<Rightarrow>
          if 0 \<le> go_trunc x \<and> go_trunc x < 2 ^ 32 then word_of_int (go_trunc x)
          else conv_uint32 pf f
      | _ \<Rightarrow> conv_uint32 pf f)"

text \<open>
  The gc compiler on amd64 converts with \<open>CVTTSD2SQ\<close>, which yields the 64-bit pattern
  \<open>0x8000000000000000\<close> for every operand that \<open>int64\<close> cannot represent; a \<open>uint32\<close>
  is the low half of the conversion to \<open>int64\<close>.
\<close>

definition amd64 :: platform where
  "amd64 =
     \<lparr> conv_int64 = (\<lambda>f. 0x8000000000000000),
       conv_uint32 =
         (\<lambda>f. case f of
                Finite x \<Rightarrow>
                  if - (2 ^ 63) \<le> go_trunc x \<and> go_trunc x < 2 ^ 63
                  then word_of_int (go_trunc x) else 0
              | _ \<Rightarrow> 0) \<rparr>"

text \<open>An error returned by a function, or a run-time panic.\<close>

datatype go_error = Errorf string | Panic

section \<open>The hash\<close>

text \<open>
  \<open>hash\<close> feeds the bytes of the string to \<open>fnv.New32a()\<close>: FNV-1a on 32 bits, which
  starts from the offset basis 2166136261 and, for each byte, xors it in and multiplies
  by the prime 16777619.
\<close>

definition hash :: "string \<Rightarrow> uint32" where
  "hash value = fold (\<lambda>c h. (h XOR of_char c) * 16777619) value 2166136261"

section \<open>Buckets\<close>

record bucket =
  cardinalityEstimation :: int

definition findRun :: "platform \<Rightarrow> uint32 \<Rightarrow> int" where
  "findRun pf a = int_of_float64 pf (Log2 (float64_of_uint32 (a AND - a)))"

definition updateLongestRun :: "platform \<Rightarrow> bucket \<Rightarrow> uint32 \<Rightarrow> bucket" where
  "updateLongestRun pf b value =
     (let cardinalityEstimation' = wrap64 (findRun pf value + 1)
      in if cardinalityEstimation b < cardinalityEstimation'
         then b\<lparr>cardinalityEstimation := cardinalityEstimation'\<rparr>
         else b)"

type_synonym bucketGroup = "bucket list"

text \<open>\<open>make\<close> panics on a negative length; the memory limit is not modelled.\<close>

definition newBucketGroup :: "int \<Rightarrow> go_error + bucketGroup" where
  "newBucketGroup mBuckets =
     (if mBuckets < 0 then Inl Panic
      else Inr (replicate (nat mBuckets) \<lparr>cardinalityEstimation = 0\<rparr>))"

definition Len :: "bucketGroup \<Rightarrow> float64" where
  "Len bg = float64_of_int (int (length bg))"

definition countZeroBuckets :: "bucketGroup \<Rightarrow> float64" where
  "countZeroBuckets bg =
     fold (\<lambda>b count. if cardinalityEstimation b = 0 then fadd count (Finite 1) else count)
       bg (Finite 0)"

definition smallRangeCorrection :: "bucketGroup \<Rightarrow> float64 \<Rightarrow> float64 \<Rightarrow> float64" where
  "smallRangeCorrection bg prediction totalBuckets =
     fmul totalBuckets (Log (fdiv totalBuckets (countZeroBuckets bg)))"

definition correct :: "bucketGroup \<Rightarrow> float64 \<Rightarrow> float64" where
  "correct bg prediction =
     (if fle prediction (fmul (Finite 2.5) (Len bg))
      then smallRangeCorrection bg prediction (Len bg)
      else prediction)"

definition harmonicMean :: "platform \<Rightarrow> bucketGroup \<Rightarrow> float64 \<Rightarrow> int" where
  "harmonicMean pf bg constant =
     (let total =
            fold (\<lambda>v total.
                    fadd total (Pow2 (float64_of_int (wrap64 (- 1 * cardinalityEstimation v)))))
              bg (Finite 0)
      in int_of_float64 pf (correct bg (fdiv (fmul (fmul constant (Len bg)) (Len bg)) total)))"

section \<open>The estimator\<close>

record HyperLogLog =
  "constant" :: float64
  indexBits :: uint32
  mBuckets :: int
  bucketGroup :: bucketGroup

definition NewHyperLogLog :: "platform \<Rightarrow> uint32 \<Rightarrow> go_error + HyperLogLog" where
  "NewHyperLogLog pf indexBits' =
     (if indexBits' < 4 \<or> indexBits' > 16
      then Inl (Errorf ''index bits need to be in interval 4>=x>=16'')
      else
        let mBuckets' = Pow2 (float64_of_uint32 indexBits');
            constant' =
              (if indexBits' = 4 then Finite 0.673
               else if indexBits' = 5 then Finite 0.697
               else if indexBits' = 6 then Finite 0.709
               else fdiv (Finite 0.7213) (fadd (Finite 1) (fdiv (Finite 1.079) mBuckets')))
        in case newBucketGroup (int_of_float64 pf mBuckets') of
             Inl e \<Rightarrow> Inl e
           | Inr bg \<Rightarrow>
               Inr \<lparr> constant = constant', indexBits = indexBits',
                     mBuckets = int_of_float64 pf mBuckets', bucketGroup = bg \<rparr>)"

text \<open>
  The loop of \<open>getHeadBitTotal\<close>, from the counter \<open>i\<close> up to \<open>bound = bits + start\<close>,
  with the sum \<open>x\<close> so far.
\<close>

function getHeadBitTotal_loop :: "platform \<Rightarrow> uint32 \<Rightarrow> uint32 \<Rightarrow> uint32 \<Rightarrow> uint32" where
  "getHeadBitTotal_loop pf bound i x =
     (if i < bound
      then getHeadBitTotal_loop pf bound (i + 1)
             (x + uint32_of_float64 pf (Pow2 (float64_of_uint32 i)))
      else x)"
  by pat_completeness auto
termination
proof (relation "measure (\<lambda>(pf, bound, i, x). unat bound - unat i)")
  show "wf (measure (\<lambda>(pf, bound, i, x). unat bound - unat i))"
    by simp
next
  fix pf :: platform and bound i x :: uint32
  assume less: "i < bound"
  then have "unat bound - unat (i + 1) < unat bound - unat i"
    by unat_arith
  then show "((pf, bound, i + 1, x + uint32_of_float64 pf (Pow2 (float64_of_uint32 i))),
      (pf, bound, i, x)) \<in> measure (\<lambda>(pf, bound, i, x). unat bound - unat i)"
    by simp
qed

definition getHeadBitTotal :: "platform \<Rightarrow> uint32 \<Rightarrow> uint32 \<Rightarrow> uint32" where
  "getHeadBitTotal pf bits byteNumber =
     (let start = 8 * byteNumber - 8
      in getHeadBitTotal_loop pf (bits + start) start 0)"

definition getSignificantBits :: "platform \<Rightarrow> uint32 \<Rightarrow> uint32" where
  "getSignificantBits pf n =
     (if n \<le> 8 then getHeadBitTotal pf n 1
      else let remainingBits = n - 8
           in getHeadBitTotal pf 8 1 + getHeadBitTotal pf remainingBits 2)"

definition splitBinary :: "platform \<Rightarrow> HyperLogLog \<Rightarrow> uint32 \<Rightarrow> uint32 \<times> uint32" where
  "splitBinary pf hll h =
     (let binaryTotal = getSignificantBits pf (indexBits hll);
          binaryIndex = h AND binaryTotal;
          unusedBinary = drop_bit (unat (indexBits hll)) (h - binaryIndex)
      in (binaryIndex, unusedBinary))"

text \<open>Indexing the slice panics when the index is not below its length.\<close>

definition Add :: "platform \<Rightarrow> HyperLogLog \<Rightarrow> string \<Rightarrow> go_error + HyperLogLog" where
  "Add pf hll s =
     (let h = hash s;
          (binaryIndex, unusedBinary) = splitBinary pf hll h
      in if unat binaryIndex < length (bucketGroup hll)
         then Inr (hll\<lparr>bucketGroup :=
                 (bucketGroup hll)[unat binaryIndex :=
                    updateLongestRun pf (bucketGroup hll ! unat binaryIndex) unusedBinary]\<rparr>)
         else Inl Panic)"

definition EstimateCardinality :: "platform \<Rightarrow> HyperLogLog \<Rightarrow> int" where
  "EstimateCardinality pf hll = harmonicMean pf (bucketGroup hll) (constant hll)"

text \<open>A sequence of \<open>Add\<close> calls, stopping at the first panic.\<close>

fun AddAll :: "platform \<Rightarrow> HyperLogLog \<Rightarrow> string list \<Rightarrow> go_error + HyperLogLog" where
  "AddAll pf hll [] = Inr hll"
| "AddAll pf hll (s # ss) =
     (case Add pf hll s of Inl e \<Rightarrow> Inl e | Inr hll' \<Rightarrow> AddAll pf hll' ss)"

section \<open>Notions of the specification\<close>

text \<open>
  The count of trailing zero bits of a 32-bit value, as the specification words the rank
  ("count of trailing zero bits + 1"): bits are inspected from the lowest upwards, and
  the count of the value 0 is 32.
\<close>

fun count_trailing_zeros :: "nat \<Rightarrow> uint32 \<Rightarrow> nat" where
  "count_trailing_zeros 0 w = 0"
| "count_trailing_zeros (Suc n) w =
     (if bit w 0 then 0 else Suc (count_trailing_zeros n (drop_bit 1 w)))"

definition trailing_zero_count :: "uint32 \<Rightarrow> nat" where
  "trailing_zero_count w = count_trailing_zeros 32 w"

text \<open>
  The bias constant of the specification: 0.673, 0.697 and 0.709 for the precisions 4, 5
  and 6, and \<open>0.7213 / (1 + 1.079 / m)\<close> with \<open>m = 2 ^ p\<close> from precision 7 on.
\<close>

definition alpha_m :: "nat \<Rightarrow> real" where
  "alpha_m p =
     (if p = 4 then 0.673 else if p = 5 then 0.697 else if p = 6 then 0.709
      else 0.7213 / (1 + 1.079 / 2 ^ p))"

text \<open>
  A validly constructed estimator: the precision \<open>p\<close> lies in \<open>[4, 16]\<close>, the constant
  is the bias constant of \<open>p\<close>, and there are \<open>m = 2 ^ p\<close> registers.
\<close>

definition valid_estimator :: "HyperLogLog \<Rightarrow> bool" where
  "valid_estimator hll \<longleftrightarrow>
     4 \<le> indexBits hll \<and> indexBits hll \<le> 16 \<and>
     constant hll = Finite (alpha_m (unat (indexBits hll))) \<and>
     mBuckets hll = 2 ^ unat (indexBits hll) \<and>
     length (bucketGroup hll) = 2 ^ unat (indexBits hll)"

text \<open>The register values, and their range: between 0 and \<open>33 - p\<close>.\<close>

definition registers :: "HyperLogLog \<Rightarrow> int list" where
  "registers hll = map cardinalityEstimation (bucketGroup hll)"

definition registers_in_range :: "HyperLogLog \<Rightarrow> bool" where
  "registers_in_range hll \<longleftrightarrow>
     list_all (\<lambda>r. 0 \<le> r \<and> r \<le> 33 - int (unat (indexBits hll))) (registers hll)"

text \<open>
  The quantities of the estimate: \<open>V\<close>, the count of registers at 0, and the raw estimate
  \<open>E = alpha_m * m^2 / (sum over the registers of 2^(-register))\<close>.
\<close>

definition zero_registers :: "HyperLogLog \<Rightarrow> nat" where
  "zero_registers hll = length (filter (\<lambda>r. r = 0) (registers hll))"

definition raw_estimate :: "HyperLogLog \<Rightarrow> real" where
  "raw_estimate hll =
     alpha_m (unat (indexBits hll)) * (2 ^ unat (indexBits hll)) ^ 2
       / (\<Sum>r\<leftarrow>registers hll. 2 powr (- real_of_int r))"

declare getHeadBitTotal_loop.simps [simp del]

section \<open>Facts about the conversions\<close>

lemma go_trunc_of_int [simp]: "go_trunc (real_of_int k) = k"
  by (simp add: go_trunc_def)

lemma go_trunc_of_nat [simp]: "go_trunc (real n) = int n"
  using go_trunc_of_int [of "int n"] by simp

lemma go_trunc_power2 [simp]: "go_trunc (2 ^ n) = 2 ^ n"
  using go_trunc_of_int [of "2 ^ n"] by simp

lemma wrap64_id: "- (2 ^ 63) \<le> x \<Longrightarrow> x < 2 ^ 63 \<Longrightarrow> wrap64 x = x"
  by (simp add: wrap64_def sint_sbintrunc' signed_take_bit_int_eq_self)

lemma unat_power2:
  assumes "n < 32"
  shows "unat (2 ^ n :: uint32) = 2 ^ n"
proof -
  have "(2::nat) ^ n < 2 ^ 32"
    using assms by (rule power_strict_increasing) simp
  moreover have "unat (of_nat (2 ^ n) :: uint32) = 2 ^ n mod 2 ^ LENGTH(32)"
    by (rule unat_of_nat)
  ultimately show ?thesis
    by simp
qed

lemma Pow2_float64_of_uint32: "Pow2 (float64_of_uint32 i) = Finite (2 ^ unat i)"
proof -
  have "(2::real) powr real (unat i) = 2 ^ unat i"
    by (rule powr_realpow) simp
  then show ?thesis
    by (simp only: float64_of_uint32_def Pow2.simps)
qed

lemma uint32_of_Pow2:
  assumes "unat i < 32"
  shows "uint32_of_float64 pf (Pow2 (float64_of_uint32 i)) = 2 ^ unat i"
proof -
  have "(2::int) ^ unat i < 2 ^ 32"
    using assms by (rule power_strict_increasing) simp
  then show ?thesis
    by (simp add: Pow2_float64_of_uint32 uint32_of_float64_def)
qed

section \<open>The rank computed by \<open>findRun\<close>\<close>

lemma and_neg_odd:
  fixes w :: uint32
  assumes "bit w 0"
  shows "w AND - w = 1"
proof -
  from assms have "odd w"
    by (simp add: bit_0)
  then obtain v where w: "w = 1 + 2 * v"
    by (metis oddE add.commute)
  have m: "- w = NOT (2 * v)"
    by (simp add: w minus_eq_not_minus_1)
  show ?thesis
    unfolding m unfolding w
    by (rule bit_eqI) (simp add: bit_simps bit_0 even_bit_succ_iff, blast)
qed

lemma even_uint32_double:
  fixes w :: uint32
  assumes "\<not> bit w 0"
  shows "w = push_bit 1 (drop_bit 1 w)"
proof -
  from assms have "even w"
    by (simp add: bit_0)
  then have "2 * (w div 2) = w"
    using mult_div_mod_eq [of 2 w] by (simp add: even_iff_mod_2_eq_zero)
  then show ?thesis
    by (simp add: drop_bit_Suc push_bit_eq_mult mult.commute)
qed

lemma and_neg_even:
  fixes w :: uint32
  assumes "\<not> bit w 0"
  shows "w AND - w = 2 * (drop_bit 1 w AND - drop_bit 1 w)"
proof -
  have w: "w = push_bit 1 (drop_bit 1 w)"
    using assms by (rule even_uint32_double)
  have "push_bit 1 (drop_bit 1 w) AND - push_bit 1 (drop_bit 1 w) =
      push_bit 1 (drop_bit 1 w AND - drop_bit 1 w)"
    by (simp only: push_bit_and push_bit_minus)
  then have "w AND - w = push_bit 1 (drop_bit 1 w AND - drop_bit 1 w)"
    using w by simp
  then show ?thesis
    by (simp only: push_bit_eq_mult power_one_right mult.commute)
qed

lemma lowest_bit_isolated:
  "w \<noteq> 0 \<Longrightarrow> drop_bit n w = 0 \<Longrightarrow>
   w AND - w = 2 ^ count_trailing_zeros n w \<and> count_trailing_zeros n w < n"
proof (induction n arbitrary: w)
  case 0
  then show ?case by simp
next
  case (Suc n)
  show ?case
  proof (cases "bit w 0")
    case True
    then show ?thesis
      by (simp add: and_neg_odd)
  next
    case False
    let ?v = "drop_bit 1 w"
    have w: "w = push_bit 1 ?v"
      using False by (rule even_uint32_double)
    with Suc.prems(1) have "?v \<noteq> 0"
      by auto
    moreover have "drop_bit n ?v = 0"
      using Suc.prems(2) by (simp add: drop_bit_drop_bit)
    ultimately have "?v AND - ?v = 2 ^ count_trailing_zeros n ?v \<and> count_trailing_zeros n ?v < n"
      by (rule Suc.IH)
    then show ?thesis
      using False by (simp add: and_neg_even)
  qed
qed

lemma count_trailing_zeros_numeral:
  "count_trailing_zeros (numeral k) w =
     (if bit w 0 then 0 else Suc (count_trailing_zeros (pred_numeral k) (drop_bit 1 w)))"
  by (simp add: numeral_eq_Suc)

lemma and_neg_trailing_zero_count:
  assumes "w \<noteq> 0"
  shows "w AND - w = 2 ^ trailing_zero_count w" and "trailing_zero_count w < 32"
  using lowest_bit_isolated [OF assms, of 32] by (simp_all add: trailing_zero_count_def)

lemma count_trailing_zeros_bits:
  "count_trailing_zeros n w < n \<Longrightarrow>
   bit w (count_trailing_zeros n w) \<and> (\<forall>i < count_trailing_zeros n w. \<not> bit w i)"
proof (induction n arbitrary: w)
  case 0
  then show ?case by simp
next
  case (Suc n)
  show ?case
  proof (cases "bit w 0")
    case True
    then show ?thesis by simp
  next
    case False
    with Suc.prems have "count_trailing_zeros n (drop_bit 1 w) < n"
      by simp
    then have IH: "bit (drop_bit 1 w) (count_trailing_zeros n (drop_bit 1 w))"
      "\<And>i. i < count_trailing_zeros n (drop_bit 1 w) \<Longrightarrow> \<not> bit (drop_bit 1 w) i"
      using Suc.IH by blast+
    have "\<not> bit w i" if "i < Suc (count_trailing_zeros n (drop_bit 1 w))" for i
    proof (cases i)
      case 0
      with False show ?thesis by simp
    next
      case (Suc j)
      with that IH(2) [of j] show ?thesis
        by (simp add: bit_drop_bit_eq)
    qed
    with IH(1) False show ?thesis
      by (simp add: bit_drop_bit_eq)
  qed
qed

lemma trailing_zero_count_lowest_set_bit:
  assumes "w \<noteq> 0"
  shows "bit w (trailing_zero_count w)" and "i < trailing_zero_count w \<Longrightarrow> \<not> bit w i"
  using count_trailing_zeros_bits [of 32 w] and_neg_trailing_zero_count(2) [OF assms]
  by (simp_all add: trailing_zero_count_def)

lemma findRun_nonzero:
  assumes "w \<noteq> 0"
  shows "findRun pf w = int (trailing_zero_count w)"
proof -
  let ?k = "trailing_zero_count w"
  have k: "?k < 32"
    using assms by (rule and_neg_trailing_zero_count)
  then have "unat (2 ^ ?k :: uint32) = 2 ^ ?k"
    by (rule unat_power2)
  then have "float64_of_uint32 (w AND - w) = Finite (2 ^ ?k)"
    by (simp add: float64_of_uint32_def and_neg_trailing_zero_count(1) [OF assms] del: of_nat_unat)
  then have "Log2 (float64_of_uint32 (w AND - w)) = Finite (real ?k)"
    by simp
  moreover have "int ?k < 2 ^ 63"
    using k by simp
  ultimately show ?thesis
    by (simp add: findRun_def int_of_float64_def)
qed

lemma rank_nonzero:
  assumes "w \<noteq> 0"
  shows "wrap64 (findRun pf w + 1) = int (trailing_zero_count w) + 1"
proof -
  have "trailing_zero_count w < 32"
    using assms by (rule and_neg_trailing_zero_count)
  then show ?thesis
    by (simp add: findRun_nonzero [OF assms] wrap64_id)
qed

section \<open>The mask built by \<open>getSignificantBits\<close>\<close>

lemma getHeadBitTotal_loop_eq:
  "unat i \<le> unat bound \<Longrightarrow> unat bound \<le> 32 \<Longrightarrow>
   getHeadBitTotal_loop pf bound i x = x + (2 ^ unat bound - 2 ^ unat i)"
proof (induction pf bound i x rule: getHeadBitTotal_loop.induct)
  case (1 pf bound i x)
  show ?case
  proof (cases "i < bound")
    case True
    then have suc: "unat (i + 1) = Suc (unat i)"
      by unat_arith
    from True have lt: "unat i < unat bound"
      by (simp add: word_less_nat_alt)
    with "1.prems" have "unat i < 32"
      by simp
    then have conv: "uint32_of_float64 pf (Pow2 (float64_of_uint32 i)) = 2 ^ unat i"
      by (rule uint32_of_Pow2)
    have "getHeadBitTotal_loop pf bound i x =
        getHeadBitTotal_loop pf bound (i + 1) (x + 2 ^ unat i)"
      using True by (subst getHeadBitTotal_loop.simps) (simp add: conv)
    also have "\<dots> = x + 2 ^ unat i + (2 ^ unat bound - 2 ^ unat (i + 1))"
      using "1.IH" [OF True] lt "1.prems" by (simp add: suc conv)
    also have "\<dots> = x + (2 ^ unat bound - 2 ^ unat i)"
      by (simp add: suc)
    finally show ?thesis .
  next
    case False
    with "1.prems" have "i = bound"
      by (simp add: word_less_nat_alt word_unat_eq_iff)
    then show ?thesis
      by (subst getHeadBitTotal_loop.simps) simp
  qed
qed

lemma getSignificantBits_mask:
  assumes "n \<le> 32"
  shows "getSignificantBits pf n = mask (unat n)"
proof (cases "n \<le> 8")
  case True
  then show ?thesis
    using assms
    by (simp add: getSignificantBits_def getHeadBitTotal_def getHeadBitTotal_loop_eq
        word_le_nat_alt mask_eq_exp_minus_1)
next
  case False
  then have n8: "8 < unat n" "unat n \<le> 32"
    using assms by (simp_all add: word_le_nat_alt not_le word_less_nat_alt)
  then have sub: "unat (n - 8 + 8) = unat n"
    by simp
  have "getHeadBitTotal pf (n - 8) 2 = 2 ^ unat n - 2 ^ 8"
    using n8 by (simp add: getHeadBitTotal_def getHeadBitTotal_loop_eq)
  moreover have "getHeadBitTotal pf 8 1 = 2 ^ 8 - 1"
    by (simp add: getHeadBitTotal_def getHeadBitTotal_loop_eq)
  ultimately show ?thesis
    using False by (simp add: getSignificantBits_def mask_eq_exp_minus_1)
qed

lemma drop_bit_minus_low_bits:
  fixes h :: uint32
  shows "drop_bit p (h - (h AND mask p)) = drop_bit p h"
proof -
  have eq: "h - (h AND mask p) = h AND NOT (h AND mask p)"
    by (rule disjunctive_diff_eq_and_not) (rule bit_eqI, simp add: bit_simps)
  show ?thesis
    unfolding eq by (rule bit_eqI) (auto simp add: bit_simps dest: bit_imp_le_length)
qed

lemma splitBinary_eq:
  assumes "indexBits hll \<le> 32"
  shows "splitBinary pf hll h =
    (h AND mask (unat (indexBits hll)), drop_bit (unat (indexBits hll)) h)"
  by (simp add: splitBinary_def getSignificantBits_mask [OF assms] drop_bit_minus_low_bits)

lemma uint32_le_32: "p \<le> (16::uint32) \<Longrightarrow> p \<le> 32"
  by unat_arith

section \<open>Bit splitting\<close>

text \<open>
  Claim C6. For every 32-bit hash \<open>h\<close> and every precision \<open>p\<close> in \<open>[4, 16]\<close>, the mask
  that \<open>getSignificantBits\<close> builds from floating-point powers of two is the integer
  bitmask \<open>2 ^ p - 1\<close>; \<open>splitBinary\<close> returns the index \<open>h AND (2 ^ p - 1)\<close>, the low
  \<open>p\<close> bits, and the remainder \<open>h >> p\<close>; the remainder, shifted back, shares no bit with
  the index, and both together give back \<open>h\<close>.
\<close>

theorem splitBinary_low_and_high_bits:
  assumes "4 \<le> indexBits hll" and "indexBits hll \<le> 16"
  shows "getSignificantBits pf (indexBits hll) = 2 ^ unat (indexBits hll) - 1
    \<and> fst (splitBinary pf hll h) = h AND (2 ^ unat (indexBits hll) - 1)
    \<and> snd (splitBinary pf hll h) = drop_bit (unat (indexBits hll)) h
    \<and> push_bit (unat (indexBits hll)) (snd (splitBinary pf hll h))
          AND fst (splitBinary pf hll h) = 0
    \<and> push_bit (unat (indexBits hll)) (snd (splitBinary pf hll h))
          OR fst (splitBinary pf hll h) = h"
proof -
  have le: "indexBits hll \<le> 32"
    using assms(2) by (rule uint32_le_32)
  have 1: "getSignificantBits pf (indexBits hll) = 2 ^ unat (indexBits hll) - 1"
    by (simp add: getSignificantBits_mask [OF le] mask_eq_exp_minus_1)
  have 2: "splitBinary pf hll h =
      (h AND mask (unat (indexBits hll)), drop_bit (unat (indexBits hll)) h)"
    using le by (rule splitBinary_eq)
  have 3: "push_bit p (drop_bit p h) AND (h AND mask p) = 0" for p
    by (rule bit_eqI) (auto simp add: bit_simps)
  have 4: "push_bit p (drop_bit p h) OR (h AND mask p) = h" for p
    by (rule bit_eqI) (auto simp add: bit_simps)
  show ?thesis
    using 1 3 4 by (simp add: 2 mask_eq_exp_minus_1)
qed

text \<open>The hash \<open>0b11010101\<close> (213) at precision 4: index 5 and remainder 13.\<close>

theorem splitBinary_low_and_high_bits_witness:
  "splitBinary amd64 \<lparr> constant = Finite 0.673, indexBits = 4, mBuckets = 16,
      bucketGroup = replicate 16 \<lparr>cardinalityEstimation = 0\<rparr> \<rparr> 213 = (5, 13)"
  using splitBinary_low_and_high_bits [of "\<lparr> constant = Finite 0.673, indexBits = 4,
      mBuckets = 16, bucketGroup = replicate 16 \<lparr>cardinalityEstimation = 0\<rparr> \<rparr>" amd64 213]
  by (simp add: prod_eq_iff)

section \<open>The rank of a nonzero remainder\<close>

text \<open>
  Claim C7. For every nonzero remainder \<open>w\<close>, \<open>findRun\<close> returns the count of trailing
  zero bits of \<open>w\<close>, so the rank that \<open>updateLongestRun\<close> computes during \<open>Add\<close> is that
  count plus 1, and the register becomes the maximum of its value and this rank.
\<close>

theorem rank_is_trailing_zero_count_plus_one:
  assumes "w \<noteq> 0"
  shows "findRun pf w + 1 = int (trailing_zero_count w) + 1
    \<and> updateLongestRun pf b w =
        b\<lparr>cardinalityEstimation :=
            max (cardinalityEstimation b) (int (trailing_zero_count w) + 1)\<rparr>"
proof -
  have "wrap64 (findRun pf w + 1) = int (trailing_zero_count w) + 1"
    using assms by (rule rank_nonzero)
  then have "updateLongestRun pf b w =
      b\<lparr>cardinalityEstimation :=
          max (cardinalityEstimation b) (int (trailing_zero_count w) + 1)\<rparr>"
    by (simp add: updateLongestRun_def max_def)
  with assms show ?thesis
    by (simp add: findRun_nonzero)
qed

text \<open>The rank of 8 is 4, of 1 is 1, and of 6 is 2.\<close>

theorem rank_is_trailing_zero_count_plus_one_witness:
  "findRun amd64 8 + 1 = 4 \<and> findRun amd64 1 + 1 = 1 \<and> findRun amd64 6 + 1 = 2"
  using rank_is_trailing_zero_count_plus_one [of 8 amd64]
    rank_is_trailing_zero_count_plus_one [of 1 amd64]
    rank_is_trailing_zero_count_plus_one [of 6 amd64]
  by (simp add: trailing_zero_count_def count_trailing_zeros_numeral)

section \<open>Construction\<close>

lemma unat_bounds_4_16:
  fixes p :: uint32
  assumes "4 \<le> p" and "p \<le> 16"
  shows "4 \<le> unat p" and "unat p \<le> 16"
  using assms by (simp_all add: word_le_nat_alt)

lemma NewHyperLogLog_invalid:
  assumes "p < 4 \<or> 16 < p"
  shows "NewHyperLogLog pf p = Inl (Errorf ''index bits need to be in interval 4>=x>=16'')"
  using assms by (simp add: NewHyperLogLog_def)

lemma power2_int64_range:
  assumes "n \<le> 62"
  shows "- 9223372036854775808 \<le> (2::int) ^ n" and "(2::int) ^ n < 9223372036854775808"
proof -
  have "(2::int) ^ n \<le> 2 ^ 62"
    using assms by (rule power_increasing) simp
  then have a: "(2::int) ^ n \<le> 4611686018427387904"
    by simp
  have b: "(0::int) < 2 ^ n"
    by simp
  from b show "- 9223372036854775808 \<le> (2::int) ^ n"
    by linarith
  from a show "(2::int) ^ n < 9223372036854775808"
    by linarith
qed

lemma int_of_Pow2:
  assumes "unat p \<le> 16"
  shows "int_of_float64 pf (Pow2 (float64_of_uint32 p)) = 2 ^ unat p"
proof -
  from assms have "unat p \<le> 62"
    by simp
  then show ?thesis
    by (simp add: Pow2_float64_of_uint32 int_of_float64_def power2_int64_range)
qed

lemma NewHyperLogLog_valid:
  assumes "4 \<le> p" and "p \<le> 16"
  shows "NewHyperLogLog pf p =
    Inr \<lparr> constant = Finite (alpha_m (unat p)), indexBits = p, mBuckets = 2 ^ unat p,
          bucketGroup = replicate (2 ^ unat p) \<lparr>cardinalityEstimation = 0\<rparr> \<rparr>"
proof -
  note b = unat_bounds_4_16 [OF assms]
  have m: "int_of_float64 pf (Pow2 (float64_of_uint32 p)) = 2 ^ unat p"
    using b(2) by (rule int_of_Pow2)
  have "0 < 1 + 1.079 / (2::real) ^ unat p"
    by (simp add: add_pos_nonneg)
  then have ne: "1 + 1.079 / (2::real) ^ unat p \<noteq> 0"
    by simp
  have e: "(p = 4) = (unat p = 4)" "(p = 5) = (unat p = 5)" "(p = 6) = (unat p = 6)"
    using word_unat_eq_iff [of p 4] word_unat_eq_iff [of p 5] word_unat_eq_iff [of p 6]
    by simp_all
  have c: "(if p = 4 then Finite 0.673 else if p = 5 then Finite 0.697
       else if p = 6 then Finite 0.709
       else fdiv (Finite 0.7213) (fadd (Finite 1) (fdiv (Finite 1.079) (Pow2 (float64_of_uint32 p)))))
     = Finite (alpha_m (unat p))"
    using ne by (simp add: alpha_m_def e Pow2_float64_of_uint32)
  have nat: "nat (2 ^ unat p) = 2 ^ unat p"
    by (simp add: nat_power_eq)
  show ?thesis
    using assms unfolding NewHyperLogLog_def Let_def m c newBucketGroup_def
    by (simp add: nat not_less)
qed

section \<open>The estimate\<close>

lemma total_fold:
  "fold (\<lambda>v total. fadd total (Pow2 (float64_of_int (wrap64 (- 1 * cardinalityEstimation v)))))
     bg (Finite a)
   = Finite (a + (\<Sum>v\<leftarrow>bg. 2 powr real_of_int (wrap64 (- cardinalityEstimation v))))"
  by (induction bg arbitrary: a) (simp_all add: float64_of_int_def add.assoc)

lemma count_fold:
  "fold (\<lambda>b count. if cardinalityEstimation b = 0 then fadd count (Finite 1) else count)
     bg (Finite a)
   = Finite (a + real (length (filter (\<lambda>b. cardinalityEstimation b = 0) bg)))"
  by (induction bg arbitrary: a) (simp_all add: add.assoc)

lemma countZeroBuckets_eq:
  "countZeroBuckets bg = Finite (real (length (filter (\<lambda>b. cardinalityEstimation b = 0) bg)))"
  by (simp add: countZeroBuckets_def count_fold)

lemma zero_registers_eq:
  "zero_registers hll = length (filter (\<lambda>b. cardinalityEstimation b = 0) (bucketGroup hll))"
  by (simp add: zero_registers_def registers_def filter_map comp_def)

lemma Log_pos: "0 < x \<Longrightarrow> Log (Finite x) = Finite (ln x)"
  by simp

lemma fdiv_nonzero: "y \<noteq> 0 \<Longrightarrow> fdiv (Finite x) (Finite y) = Finite (x / y)"
  by simp

lemma smallRangeCorrection_pos:
  assumes "bg \<noteq> []" and "filter (\<lambda>b. cardinalityEstimation b = 0) bg \<noteq> []"
  shows "smallRangeCorrection bg prediction (Len bg) =
    Finite (real (length bg)
      * ln (real (length bg) / real (length (filter (\<lambda>b. cardinalityEstimation b = 0) bg))))"
proof -
  let ?V = "real (length (filter (\<lambda>b. cardinalityEstimation b = 0) bg))"
  let ?m = "real (length bg)"
  have V: "0 < ?V" and m: "0 < ?m"
    using assms by simp_all
  then have pos: "0 < ?m / ?V"
    by (rule divide_pos_pos[rotated])
  from V have "?V \<noteq> 0"
    by simp
  then have "fdiv (Finite ?m) (Finite ?V) = Finite (?m / ?V)"
    by (rule fdiv_nonzero)
  then have "smallRangeCorrection bg prediction (Len bg) = fmul (Finite ?m) (Log (Finite (?m / ?V)))"
    by (simp add: smallRangeCorrection_def countZeroBuckets_eq Len_def float64_of_int_def)
  also have "\<dots> = Finite (?m * ln (?m / ?V))"
    by (simp only: Log_pos [OF pos] fmul.simps)
  finally show ?thesis .
qed

lemma smallRangeCorrection_no_zero_bucket:
  assumes "bg \<noteq> []" and "filter (\<lambda>b. cardinalityEstimation b = 0) bg = []"
  shows "smallRangeCorrection bg prediction (Len bg) = PosInf"
  using assms
  by (simp add: smallRangeCorrection_def countZeroBuckets_eq Len_def float64_of_int_def
      inf_signed_def)

lemma correct_Finite:
  "correct bg (Finite E) =
     (if E \<le> 2.5 * real (length bg) then smallRangeCorrection bg (Finite E) (Len bg)
      else Finite E)"
  by (simp add: correct_def Len_def float64_of_int_def)

lemma harmonicMean_Finite:
  assumes "(\<Sum>v\<leftarrow>bg. 2 powr real_of_int (wrap64 (- cardinalityEstimation v))) \<noteq> 0"
  shows "harmonicMean pf bg (Finite c) =
    int_of_float64 pf (correct bg (Finite (c * real (length bg) * real (length bg)
      / (\<Sum>v\<leftarrow>bg. 2 powr real_of_int (wrap64 (- cardinalityEstimation v))))))"
  using assms unfolding harmonicMean_def Let_def total_fold
  by (simp add: Len_def float64_of_int_def)

lemma int_of_float64_in_range:
  assumes "0 \<le> x" and "x < 2 ^ 63"
  shows "int_of_float64 pf (Finite x) = go_trunc x" and "0 \<le> go_trunc x"
proof -
  have t: "go_trunc x = \<lfloor>x\<rfloor>"
    using assms(1) by (simp add: go_trunc_def)
  have lo: "0 \<le> \<lfloor>x\<rfloor>"
    using assms(1) by simp
  have "x < real_of_int (2 ^ 63)"
    using assms(2) by simp
  then have hi: "\<lfloor>x\<rfloor> < 2 ^ 63"
    by (simp only: floor_less_iff)
  from lo hi have "- (2 ^ 63) \<le> \<lfloor>x\<rfloor> \<and> \<lfloor>x\<rfloor> < 2 ^ 63"
    by simp
  then show "int_of_float64 pf (Finite x) = go_trunc x"
    by (simp add: int_of_float64_def t)
  show "0 \<le> go_trunc x"
    using lo by (simp add: t)
qed

lemma sum_list_lower_bound:
  fixes f :: "'a \<Rightarrow> real"
  assumes "\<And>x. x \<in> set xs \<Longrightarrow> c \<le> f x"
  shows "real (length xs) * c \<le> sum_list (map f xs)"
  using assms
proof (induction xs)
  case Nil
  then show ?case by simp
next
  case (Cons x xs)
  have "c \<le> f x"
    by (rule Cons.prems) simp
  moreover have "real (length xs) * c \<le> sum_list (map f xs)"
    by (rule Cons.IH) (simp add: Cons.prems)
  ultimately show ?case
    by (simp add: algebra_simps)
qed

lemma alpha_m_bounds: "0 < alpha_m p" "alpha_m p \<le> 1"
proof -
  let ?d = "1 + 1.079 / (2::real) ^ p"
  have d: "1 \<le> ?d"
    by simp
  then have pos: "0 < ?d"
    by linarith
  have "0.7213 / ?d \<le> 0.7213 / 1"
    using d pos by (intro divide_left_mono) (simp_all del: divide_le_eq_numeral1)
  also have "(0.7213::real) / 1 \<le> 1"
    by simp
  finally have le: "0.7213 / ?d \<le> 1" .
  have "0 < 0.7213 / ?d"
    using pos by (rule divide_pos_pos [rotated]) simp
  with le show "0 < alpha_m p" "alpha_m p \<le> 1"
    by (simp_all add: alpha_m_def)
qed

lemma register_bounds:
  assumes "registers_in_range hll" and "b \<in> set (bucketGroup hll)"
  shows "0 \<le> cardinalityEstimation b" and "cardinalityEstimation b \<le> 33"
proof -
  from assms have "0 \<le> cardinalityEstimation b
      \<and> cardinalityEstimation b \<le> 33 - int (unat (indexBits hll))"
    unfolding registers_in_range_def registers_def list_all_iff by simp
  then show "0 \<le> cardinalityEstimation b" and "cardinalityEstimation b \<le> 33"
    by linarith+
qed

lemma register_sum_eq:
  assumes "registers_in_range hll"
  shows "(\<Sum>v\<leftarrow>bucketGroup hll. 2 powr real_of_int (wrap64 (- cardinalityEstimation v)))
    = (\<Sum>r\<leftarrow>registers hll. 2 powr (- real_of_int r))"
proof -
  have "wrap64 (- cardinalityEstimation v) = - cardinalityEstimation v"
    if "v \<in> set (bucketGroup hll)" for v
    using register_bounds [OF assms that] by (intro wrap64_id) simp_all
  then have "map (\<lambda>v. 2 powr real_of_int (wrap64 (- cardinalityEstimation v))) (bucketGroup hll)
    = map (\<lambda>v. 2 powr (- real_of_int (cardinalityEstimation v))) (bucketGroup hll)"
    by simp
  then have "(\<Sum>v\<leftarrow>bucketGroup hll. 2 powr real_of_int (wrap64 (- cardinalityEstimation v)))
    = (\<Sum>v\<leftarrow>bucketGroup hll. 2 powr (- real_of_int (cardinalityEstimation v)))"
    by (rule arg_cong)
  also have "\<dots> = (\<Sum>r\<leftarrow>registers hll. 2 powr (- real_of_int r))"
    by (simp add: registers_def comp_def)
  finally show ?thesis .
qed

lemma register_sum_lower_bound:
  assumes "registers_in_range hll"
  shows "real (length (bucketGroup hll)) * 2 powr (- 33)
    \<le> (\<Sum>r\<leftarrow>registers hll. 2 powr (- real_of_int r))"
proof -
  have "2 powr (- 33) \<le> 2 powr (- real_of_int r)" if "r \<in> set (registers hll)" for r
  proof -
    from that obtain b where "b \<in> set (bucketGroup hll)" "r = cardinalityEstimation b"
      by (auto simp add: registers_def)
    then have "r \<le> 33"
      using register_bounds(2) [OF assms] by simp
    then show ?thesis
      by (simp add: powr_le_cancel_iff)
  qed
  then have "real (length (registers hll)) * 2 powr (- 33)
      \<le> sum_list (map (\<lambda>r. 2 powr (- real_of_int r)) (registers hll))"
    by (rule sum_list_lower_bound)
  then show ?thesis
    by (simp add: registers_def)
qed

lemma bucket_count_bounds:
  assumes "valid_estimator hll"
  shows "real (length (bucketGroup hll)) = 2 ^ unat (indexBits hll)"
    and "(16::real) \<le> 2 ^ unat (indexBits hll)"
    and "(2::real) ^ unat (indexBits hll) \<le> 65536"
    and "bucketGroup hll \<noteq> []"
proof -
  from assms have p: "4 \<le> unat (indexBits hll)" "unat (indexBits hll) \<le> 16"
    and len: "length (bucketGroup hll) = 2 ^ unat (indexBits hll)"
    by (simp_all add: valid_estimator_def unat_bounds_4_16)
  show "real (length (bucketGroup hll)) = 2 ^ unat (indexBits hll)"
    by (simp add: len)
  have "(2::real) ^ 4 \<le> 2 ^ unat (indexBits hll)"
    using p(1) by (intro power_increasing) simp_all
  then show "(16::real) \<le> 2 ^ unat (indexBits hll)"
    by simp
  have "(2::real) ^ unat (indexBits hll) \<le> 2 ^ 16"
    using p(2) by (intro power_increasing) simp_all
  then show "(2::real) ^ unat (indexBits hll) \<le> 65536"
    by simp
  from len show "bucketGroup hll \<noteq> []"
    by auto
qed

lemma raw_estimate_bounds:
  assumes "valid_estimator hll" and "registers_in_range hll"
  shows "0 < (\<Sum>r\<leftarrow>registers hll. 2 powr (- real_of_int r))"
    and "0 < raw_estimate hll" and "raw_estimate hll < 2 ^ 63"
proof -
  let ?m = "(2::real) ^ unat (indexBits hll)"
  let ?S = "\<Sum>r\<leftarrow>registers hll. 2 powr (- real_of_int r)"
  let ?a = "alpha_m (unat (indexBits hll))"
  note m = bucket_count_bounds [OF assms(1)]
  have L: "(2::real) powr (- 33) = 1 / 2 ^ 33"
    by (simp add: powr_minus_divide)
  have low: "?m * (1 / 2 ^ 33) \<le> ?S"
    using register_sum_lower_bound [OF assms(2)] by (simp only: m(1) L)
  have mpos: "0 < ?m"
    by simp
  then have lpos: "0 < ?m * (1 / 2 ^ 33)"
    by simp
  with low show Spos: "0 < ?S"
    by linarith
  have E: "raw_estimate hll = ?a * ?m\<^sup>2 / ?S"
    by (simp add: raw_estimate_def)
  have "0 < ?a * ?m\<^sup>2"
    using alpha_m_bounds(1) [of "unat (indexBits hll)"] by simp
  from this Spos show "0 < raw_estimate hll"
    unfolding E by (rule divide_pos_pos)
  have "?a * ?m\<^sup>2 \<le> 1 * ?m\<^sup>2"
    using alpha_m_bounds(2) [of "unat (indexBits hll)"] by (intro mult_right_mono) simp_all
  then have num: "?a * ?m\<^sup>2 \<le> ?m\<^sup>2"
    by simp
  have "?a * ?m\<^sup>2 / ?S \<le> ?m\<^sup>2 / (?m * (1 / 2 ^ 33))"
    using num lpos low
    by (intro frac_le) (simp_all add: alpha_m_bounds(1) less_imp_le)
  also have "?m\<^sup>2 / (?m * (1 / 2 ^ 33)) = ?m * 2 ^ 33"
    by (simp add: power2_eq_square)
  also have "\<dots> \<le> 65536 * 2 ^ 33"
    using m(3) by (intro mult_right_mono) simp_all
  also have "\<dots> < 2 ^ 63"
    by simp
  finally show "raw_estimate hll < 2 ^ 63"
    unfolding E .
qed

lemma EstimateCardinality_correct:
  assumes "valid_estimator hll" and "registers_in_range hll"
  shows "EstimateCardinality pf hll =
    int_of_float64 pf (correct (bucketGroup hll) (Finite (raw_estimate hll)))"
proof -
  note m = bucket_count_bounds [OF assms(1)]
  note S = register_sum_eq [OF assms(2)]
  have "(\<Sum>r\<leftarrow>registers hll. 2 powr (- real_of_int r)) \<noteq> 0"
    using raw_estimate_bounds(1) [OF assms] by simp
  then have ne: "(\<Sum>v\<leftarrow>bucketGroup hll.
      2 powr real_of_int (wrap64 (- cardinalityEstimation v))) \<noteq> 0"
    by (simp add: S)
  have c: "constant hll = Finite (alpha_m (unat (indexBits hll)))"
    using assms(1) by (simp add: valid_estimator_def)
  show ?thesis
    unfolding EstimateCardinality_def c harmonicMean_Finite [OF ne] S m(1) raw_estimate_def
    by (simp add: power2_eq_square mult.assoc)
qed

lemma small_range_value_bounds:
  fixes m V :: real
  assumes "1 \<le> V" and "V \<le> m" and "m \<le> 65536"
  shows "0 \<le> m * ln (m / V)" and "m * ln (m / V) < 2 ^ 63"
proof -
  have V: "0 < V" and mp: "0 < m"
    using assms by linarith+
  have q: "1 \<le> m / V"
    using assms V by (simp add: le_divide_eq)
  then have l0: "0 \<le> ln (m / V)"
    by (rule ln_ge_zero)
  with mp show "0 \<le> m * ln (m / V)"
    by simp
  have "m / V \<le> m / 1"
    using assms(1) mp by (intro divide_left_mono) simp_all
  then have qm: "m / V \<le> m"
    by simp
  have "ln (m / V) \<le> m / V - 1"
    using q by (intro ln_le_minus_one) linarith
  with qm have "ln (m / V) \<le> 65536"
    using assms(3) by linarith
  then have "m * ln (m / V) \<le> 65536 * 65536"
    using assms(3) mp l0 by (intro mult_mono) simp_all
  also have "\<dots> < (2::real) ^ 63"
    by simp
  finally show "m * ln (m / V) < 2 ^ 63" .
qed

lemma EstimateCardinality_zero_registers:
  assumes "valid_estimator hll" and "registers_in_range hll" and "0 < zero_registers hll"
  shows "EstimateCardinality pf hll =
    go_trunc (if raw_estimate hll \<le> 2.5 * 2 ^ unat (indexBits hll)
              then 2 ^ unat (indexBits hll)
                   * ln (2 ^ unat (indexBits hll) / real (zero_registers hll))
              else raw_estimate hll)"
    and "0 \<le> EstimateCardinality pf hll"
proof -
  let ?m = "(2::real) ^ unat (indexBits hll)"
  let ?V = "real (zero_registers hll)"
  let ?x = "if raw_estimate hll \<le> 2.5 * ?m then ?m * ln (?m / ?V) else raw_estimate hll"
  note m = bucket_count_bounds [OF assms(1)]
  note V = zero_registers_eq [of hll]
  have nz: "filter (\<lambda>b. cardinalityEstimation b = 0) (bucketGroup hll) \<noteq> []"
    using assms(3) by (simp add: V)
  have c: "correct (bucketGroup hll) (Finite (raw_estimate hll)) = Finite ?x"
    by (simp add: correct_Finite smallRangeCorrection_pos [OF m(4) nz] m(1) V)
  have "length (filter (\<lambda>b. cardinalityEstimation b = 0) (bucketGroup hll))
      \<le> length (bucketGroup hll)"
    by (rule length_filter_le)
  then have "?V \<le> real (length (bucketGroup hll))"
    unfolding V by (rule iffD2 [OF of_nat_le_iff])
  then have Vm: "?V \<le> ?m"
    by (simp only: m(1))
  have V1: "1 \<le> ?V"
    using assms(3) by simp
  note s = small_range_value_bounds [OF V1 Vm m(3)]
  have "0 \<le> ?x \<and> ?x < 2 ^ 63"
    using s raw_estimate_bounds(2,3) [OF assms(1,2)] by (simp add: less_imp_le)
  then have "int_of_float64 pf (Finite ?x) = go_trunc ?x" and "0 \<le> go_trunc ?x"
    by (simp_all only: int_of_float64_in_range)
  then show "EstimateCardinality pf hll = go_trunc ?x" and "0 \<le> EstimateCardinality pf hll"
    by (simp_all only: EstimateCardinality_correct [OF assms(1,2)] c)
qed

lemma EstimateCardinality_no_zero_register:
  assumes "valid_estimator hll" and "registers_in_range hll" and "zero_registers hll = 0"
    and "raw_estimate hll \<le> 2.5 * 2 ^ unat (indexBits hll)"
  shows "correct (bucketGroup hll) (Finite (raw_estimate hll)) = PosInf"
    and "EstimateCardinality pf hll = sint (conv_int64 pf PosInf)"
proof -
  note m = bucket_count_bounds [OF assms(1)]
  have nz: "filter (\<lambda>b. cardinalityEstimation b = 0) (bucketGroup hll) = []"
    using assms(3) by (simp add: zero_registers_eq)
  show c: "correct (bucketGroup hll) (Finite (raw_estimate hll)) = PosInf"
    using assms(4)
    by (simp add: correct_Finite smallRangeCorrection_no_zero_bucket [OF m(4) nz] m(1))
  show "EstimateCardinality pf hll = sint (conv_int64 pf PosInf)"
    by (simp add: EstimateCardinality_correct [OF assms(1,2)] c int_of_float64_def)
qed

section \<open>Adding a value\<close>

lemma index_in_range:
  fixes h :: uint32
  assumes "n < 32"
  shows "unat (h AND mask n) < 2 ^ n"
proof -
  have "h AND mask n < 2 ^ n"
    using assms by (intro and_mask_less') simp
  then have "unat (h AND mask n) < unat (2 ^ n :: uint32)"
    by (simp only: word_less_nat_alt)
  then show ?thesis
    by (simp only: unat_power2 [OF assms])
qed

lemma trailing_zero_count_remainder:
  fixes h :: uint32
  assumes "drop_bit p h \<noteq> 0" and "p \<le> 32"
  shows "trailing_zero_count (drop_bit p h) < 32 - p"
proof -
  let ?w = "drop_bit p h"
  let ?a = "count_trailing_zeros (32 - p) ?w"
  let ?b = "trailing_zero_count ?w"
  have "drop_bit (32 - p) ?w = 0"
    using assms(2) by (simp add: drop_bit_drop_bit)
  with assms(1) have a: "?w AND - ?w = 2 ^ ?a" "?a < 32 - p"
    using lowest_bit_isolated [of ?w "32 - p"] by simp_all
  have b: "?w AND - ?w = 2 ^ ?b" "?b < 32"
    using assms(1) by (rule and_neg_trailing_zero_count)+
  from a(2) have a32: "?a < 32"
    by simp
  have "unat (2 ^ ?a :: uint32) = unat (2 ^ ?b :: uint32)"
    using a(1) b(1) by simp
  then have "(2::nat) ^ ?a = 2 ^ ?b"
    by (simp only: unat_power2 [OF a32] unat_power2 [OF b(2)])
  then have "?a = ?b"
    by simp
  with a(2) show ?thesis
    by simp
qed

lemma findRun_zero: "findRun pf 0 = sint (conv_int64 pf NegInf)"
  by (simp add: findRun_def float64_of_uint32_def int_of_float64_def)

lemma rank_zero_nonpositive:
  assumes "sint (conv_int64 pf NegInf) < 0"
  shows "wrap64 (findRun pf 0 + 1) \<le> 0"
proof -
  let ?s = "sint (conv_int64 pf NegInf)"
  have "- (2 ^ (LENGTH(64) - 1)) \<le> ?s"
    by (rule sint_ge)
  then have "- (2 ^ 63) \<le> ?s + 1"
    by simp
  moreover have "?s + 1 < 2 ^ 63"
    using assms by simp
  ultimately have "wrap64 (?s + 1) = ?s + 1"
    by (rule wrap64_id)
  with assms show ?thesis
    by (simp add: findRun_zero)
qed

lemma updateLongestRun_max:
  "cardinalityEstimation (updateLongestRun pf b w) =
     max (cardinalityEstimation b) (wrap64 (findRun pf w + 1))"
  by (simp add: updateLongestRun_def Let_def max_def)

lemma updateLongestRun_idem:
  "updateLongestRun pf (updateLongestRun pf b w) w = updateLongestRun pf b w"
  by (simp add: updateLongestRun_def Let_def)

lemma rank_of_remainder_bounds:
  fixes h :: uint32
  assumes "p \<le> 32" and "sint (conv_int64 pf NegInf) < 0"
  shows "wrap64 (findRun pf (drop_bit p h) + 1) \<le> 33 - int p"
proof (cases "drop_bit p h = 0")
  case True
  then show ?thesis
    using rank_zero_nonpositive [OF assms(2)] assms(1) by simp
next
  case False
  then have "trailing_zero_count (drop_bit p h) < 32 - p"
    using assms(1) by (rule trailing_zero_count_remainder)
  then show ?thesis
    using assms(1) by (simp add: rank_nonzero [OF False])
qed

lemma Add_eq:
  assumes "valid_estimator hll"
  shows "unat (hash s AND mask (unat (indexBits hll))) < length (bucketGroup hll)"
    and "Add pf hll s =
      Inr (hll\<lparr>bucketGroup := (bucketGroup hll)[unat (hash s AND mask (unat (indexBits hll))) :=
        updateLongestRun pf (bucketGroup hll ! unat (hash s AND mask (unat (indexBits hll))))
          (drop_bit (unat (indexBits hll)) (hash s))]\<rparr>)"
proof -
  from assms have p: "indexBits hll \<le> 16" "4 \<le> indexBits hll"
    and len: "length (bucketGroup hll) = 2 ^ unat (indexBits hll)"
    by (simp_all add: valid_estimator_def)
  have "unat (indexBits hll) < 32"
    using unat_bounds_4_16(2) [OF p(2,1)] by simp
  then show i: "unat (hash s AND mask (unat (indexBits hll))) < length (bucketGroup hll)"
    unfolding len by (rule index_in_range)
  have "indexBits hll \<le> 32"
    using p(1) by (rule uint32_le_32)
  then have "splitBinary pf hll (hash s) =
      (hash s AND mask (unat (indexBits hll)), drop_bit (unat (indexBits hll)) (hash s))"
    by (rule splitBinary_eq)
  then show "Add pf hll s =
      Inr (hll\<lparr>bucketGroup := (bucketGroup hll)[unat (hash s AND mask (unat (indexBits hll))) :=
        updateLongestRun pf (bucketGroup hll ! unat (hash s AND mask (unat (indexBits hll))))
          (drop_bit (unat (indexBits hll)) (hash s))]\<rparr>)"
    using i by (simp add: Add_def)
qed

lemma Add_valid:
  assumes "valid_estimator hll"
  obtains hll' where "Add pf hll s = Inr hll'" and "valid_estimator hll'"
    and "indexBits hll' = indexBits hll"
    and "registers hll' = (registers hll)[unat (hash s AND mask (unat (indexBits hll))) :=
      max (registers hll ! unat (hash s AND mask (unat (indexBits hll))))
        (wrap64 (findRun pf (drop_bit (unat (indexBits hll)) (hash s)) + 1))]"
proof -
  let ?i = "unat (hash s AND mask (unat (indexBits hll)))"
  let ?hll' = "hll\<lparr>bucketGroup := (bucketGroup hll)[?i :=
        updateLongestRun pf (bucketGroup hll ! ?i) (drop_bit (unat (indexBits hll)) (hash s))]\<rparr>"
  note a = Add_eq [OF assms]
  have "valid_estimator ?hll'"
    using assms by (simp add: valid_estimator_def)
  moreover have "registers ?hll' = (registers hll)[?i :=
      max (registers hll ! ?i) (wrap64 (findRun pf (drop_bit (unat (indexBits hll)) (hash s)) + 1))]"
    using a(1) [of s] by (simp add: registers_def map_update updateLongestRun_max)
  ultimately show thesis
    using a(2) [of pf s] by (intro that [of ?hll']) simp_all
qed

lemma fresh_estimator:
  assumes "4 \<le> p" and "p \<le> 16"
  defines "h0 \<equiv> \<lparr> constant = Finite (alpha_m (unat p)), indexBits = p, mBuckets = 2 ^ unat p,
          bucketGroup = replicate (2 ^ unat p) \<lparr>cardinalityEstimation = 0\<rparr> \<rparr>"
  shows "valid_estimator h0" and "registers_in_range h0"
    and "registers h0 = replicate (2 ^ unat p) 0" and "indexBits h0 = p"
proof -
  show "valid_estimator h0"
    using assms(1,2) by (simp add: valid_estimator_def h0_def)
  show r: "registers h0 = replicate (2 ^ unat p) 0"
    by (simp add: registers_def h0_def)
  have "unat p \<le> 16"
    using assms(1,2) by (rule unat_bounds_4_16)
  then have "(0::int) \<le> 33 - int (unat (indexBits h0))"
    by (simp add: h0_def del: of_nat_unat)
  then show "registers_in_range h0"
    unfolding registers_in_range_def r by (simp add: list_all_iff del: of_nat_unat)
  show "indexBits h0 = p"
    by (simp add: h0_def)
qed

lemma NewHyperLogLog_fresh:
  assumes "4 \<le> p" and "p \<le> 16"
  shows "\<exists>hll. NewHyperLogLog pf p = Inr hll \<and> valid_estimator hll \<and> registers_in_range hll
    \<and> indexBits hll = p \<and> registers hll = replicate (2 ^ unat p) 0"
  using NewHyperLogLog_valid [OF assms, of pf] fresh_estimator [OF assms] by blast

section \<open>Claims about construction and the empty estimator\<close>

text \<open>
  Claim C8. \<open>NewHyperLogLog\<close> fails exactly when the requested precision is outside
  \<open>[4, 16]\<close>; the error it returns is the message
  "index bits need to be in interval 4>=x>=16", which names both ends of the interval.
  Inside the interval it returns an estimator of that precision, with \<open>2 ^ p\<close> registers
  at 0.
\<close>

theorem NewHyperLogLog_precision_check:
  "(p < 4 \<or> 16 < p \<longrightarrow>
      NewHyperLogLog pf p = Inl (Errorf ''index bits need to be in interval 4>=x>=16''))
   \<and> (4 \<le> p \<and> p \<le> 16 \<longrightarrow>
      (\<exists>hll. NewHyperLogLog pf p = Inr hll \<and> valid_estimator hll \<and> indexBits hll = p
         \<and> registers hll = replicate (2 ^ unat p) 0))"
  using NewHyperLogLog_invalid [of p pf] NewHyperLogLog_fresh [of p pf] by blast

text \<open>
  Precisions 3 and 17 are refused, 4 and 16 are accepted.
\<close>

theorem NewHyperLogLog_precision_check_witness:
  "isl (NewHyperLogLog amd64 3) \<and> isl (NewHyperLogLog amd64 17)
   \<and> \<not> isl (NewHyperLogLog amd64 4) \<and> \<not> isl (NewHyperLogLog amd64 16)"
  using NewHyperLogLog_precision_check [of 3 amd64] NewHyperLogLog_precision_check [of 17 amd64]
    NewHyperLogLog_precision_check [of 4 amd64] NewHyperLogLog_precision_check [of 16 amd64]
  by auto

text \<open>
  Claim C5. For every precision \<open>p\<close> in \<open>[4, 16]\<close>, the estimator that \<open>NewHyperLogLog\<close>
  returns, with all \<open>2 ^ p\<close> registers at 0 and no value added, has
  \<open>EstimateCardinality\<close> return exactly 0.
\<close>

theorem fresh_estimator_estimates_zero:
  assumes "4 \<le> p" and "p \<le> 16"
  shows "\<exists>hll. NewHyperLogLog pf p = Inr hll \<and> registers hll = replicate (2 ^ unat p) 0
    \<and> EstimateCardinality pf hll = 0"
proof -
  define h0 where "h0 = \<lparr> constant = Finite (alpha_m (unat p)), indexBits = p,
    mBuckets = 2 ^ unat p, bucketGroup = replicate (2 ^ unat p) \<lparr>cardinalityEstimation = 0\<rparr> \<rparr>"
  note f = NewHyperLogLog_valid [OF assms, of pf, folded h0_def]
    fresh_estimator [OF assms, folded h0_def]
  let ?m = "(2::real) ^ unat p"
  have V: "zero_registers h0 = 2 ^ unat p"
    by (simp add: zero_registers_def f(4))
  then have Vpos: "0 < zero_registers h0"
    by simp
  have "EstimateCardinality pf h0 = go_trunc (if raw_estimate h0 \<le> 2.5 * ?m
      then ?m * ln (?m / real (zero_registers h0)) else raw_estimate h0)"
    using EstimateCardinality_zero_registers(1) [OF f(2,3) Vpos] by (simp only: f(5))
  moreover have "raw_estimate h0 = alpha_m (unat p) * ?m"
    by (simp add: raw_estimate_def f(4,5) sum_list_replicate power2_eq_square)
  moreover have "alpha_m (unat p) * ?m \<le> 2.5 * ?m"
    using alpha_m_bounds(2) [of "unat p"] by (intro mult_right_mono) simp_all
  ultimately have "EstimateCardinality pf h0 = 0"
    by (simp add: V go_trunc_def)
  with f(1,4) show ?thesis
    by blast
qed

text \<open>
  The estimator of precision 4.
\<close>

theorem fresh_estimator_estimates_zero_witness:
  "\<exists>hll. NewHyperLogLog amd64 4 = Inr hll \<and> registers hll = replicate 16 0
    \<and> EstimateCardinality amd64 hll = 0"
  using fresh_estimator_estimates_zero [of 4 amd64] by simp

section \<open>Register invariants of \<open>Add\<close>\<close>

lemma Add_in_range:
  assumes "valid_estimator hll" and "registers_in_range hll"
    and "sint (conv_int64 pf NegInf) < 0"
  shows "\<exists>hll'. Add pf hll s = Inr hll' \<and> valid_estimator hll'
    \<and> registers_in_range hll' \<and> indexBits hll' = indexBits hll
    \<and> length (registers hll') = length (registers hll)
    \<and> (\<forall>j < length (registers hll). registers hll ! j \<le> registers hll' ! j)
    \<and> registers hll' = (registers hll)[unat (hash s AND mask (unat (indexBits hll))) :=
      max (registers hll ! unat (hash s AND mask (unat (indexBits hll))))
        (wrap64 (findRun pf (drop_bit (unat (indexBits hll)) (hash s)) + 1))]"
proof -
  let ?p = "unat (indexBits hll)"
  let ?i = "unat (hash s AND mask ?p)"
  let ?rank = "wrap64 (findRun pf (drop_bit ?p (hash s)) + 1)"
  let ?P = "\<lambda>r. 0 \<le> r \<and> r \<le> 33 - int ?p"
  obtain hll' where h: "Add pf hll s = Inr hll'" "valid_estimator hll'"
      "indexBits hll' = indexBits hll"
      "registers hll' = (registers hll)[?i := max (registers hll ! ?i) ?rank]"
    using assms(1) by (rule Add_valid)
  have i: "?i < length (registers hll)"
    using Add_eq(1) [OF assms(1)] by (simp add: registers_def)
  from assms(1) have "?p \<le> 16"
    by (simp add: valid_estimator_def unat_bounds_4_16)
  then have "?p \<le> 32"
    by simp
  then have rank: "?rank \<le> 33 - int ?p"
    using assms(3) by (rule rank_of_remainder_bounds)
  have all: "\<And>r. r \<in> set (registers hll) \<Longrightarrow> ?P r"
    using assms(2) by (simp add: registers_in_range_def list_all_iff del: of_nat_unat)
  have "?P (registers hll ! ?i)"
    using i by (intro all nth_mem)
  with rank have new: "?P (max (registers hll ! ?i) ?rank)"
    by (simp add: max_def del: of_nat_unat)
  have "?P r" if "r \<in> set (registers hll')" for r
  proof -
    from that have "r \<in> insert (max (registers hll ! ?i) ?rank) (set (registers hll))"
      unfolding h(4) using set_update_subset_insert by (rule subsetD [rotated])
    with new all show ?thesis
      by blast
  qed
  then have range: "registers_in_range hll'"
    by (simp add: registers_in_range_def list_all_iff h(3) del: of_nat_unat)
  have mono: "registers hll ! j \<le> registers hll' ! j" if "j < length (registers hll)" for j
    using that i by (simp add: h(4) nth_list_update)
  have len: "length (registers hll') = length (registers hll)"
    by (simp add: h(4))
  from h(1,2) range h(3) len mono h(4) show ?thesis
    by blast
qed

lemma AddAll_in_range:
  assumes "valid_estimator hll" and "registers_in_range hll"
    and "sint (conv_int64 pf NegInf) < 0"
  shows "\<exists>hll'. AddAll pf hll ss = Inr hll' \<and> valid_estimator hll' \<and> registers_in_range hll'
    \<and> indexBits hll' = indexBits hll
    \<and> length (registers hll') = length (registers hll)
    \<and> (\<forall>j < length (registers hll). registers hll ! j \<le> registers hll' ! j)"
  using assms(1,2)
proof (induction ss arbitrary: hll)
  case Nil
  then show ?case by simp
next
  case (Cons s ss)
  obtain h1 where h1: "Add pf hll s = Inr h1" "valid_estimator h1" "registers_in_range h1"
      "indexBits h1 = indexBits hll" "length (registers h1) = length (registers hll)"
      "\<forall>j < length (registers hll). registers hll ! j \<le> registers h1 ! j"
    using Add_in_range [OF Cons.prems assms(3), where s = s] by blast
  obtain h2 where h2: "AddAll pf h1 ss = Inr h2" "valid_estimator h2" "registers_in_range h2"
      "indexBits h2 = indexBits h1" "length (registers h2) = length (registers h1)"
      "\<forall>j < length (registers h1). registers h1 ! j \<le> registers h2 ! j"
    using Cons.IH [OF h1(2,3)] by blast
  have "registers hll ! j \<le> registers h2 ! j" if "j < length (registers hll)" for j
    using h1(6) h2(6) that by (simp add: h1(5)) (meson order_trans)
  with h1(1) h2(1,2,3) h1(4,5) h2(4,5) show ?case
    by simp
qed


lemma NewHyperLogLog_Inr:
  assumes "NewHyperLogLog pf p = Inr h0"
  shows "valid_estimator h0" and "registers_in_range h0" and "indexBits h0 = p"
    and "registers h0 = replicate (2 ^ unat p) 0"
proof -
  have p: "4 \<le> p" "p \<le> 16"
    using assms by (auto simp add: NewHyperLogLog_def not_less split: if_splits)
  have "h0 = \<lparr> constant = Finite (alpha_m (unat p)), indexBits = p, mBuckets = 2 ^ unat p,
      bucketGroup = replicate (2 ^ unat p) \<lparr>cardinalityEstimation = 0\<rparr> \<rparr>"
    using assms NewHyperLogLog_valid [OF p, of pf] by simp
  then show "valid_estimator h0" and "registers_in_range h0" and "indexBits h0 = p"
    and "registers h0 = replicate (2 ^ unat p) 0"
    using fresh_estimator [OF p] by simp_all
qed

text \<open>
  Claim C10. \<open>Add\<close> is idempotent: for every string and every state of a valid estimator,
  on every platform, adding the string a second time returns the state that the first
  \<open>Add\<close> returned (so all registers and the estimate are unchanged), and so does adding
  it any number of further times.
\<close>

theorem add_is_idempotent:
  assumes "valid_estimator hll"
  shows "\<exists>h1 h2. Add pf hll s = Inr h1 \<and> Add pf h1 s = Inr h2 \<and> h2 = h1
    \<and> registers h2 = registers h1
    \<and> EstimateCardinality pf h2 = EstimateCardinality pf h1
    \<and> (\<forall>n. AddAll pf h1 (replicate n s) = Inr h1)"
proof -
  let ?i = "\<lambda>h. unat (hash s AND mask (unat (indexBits h)))"
  let ?u = "\<lambda>h. updateLongestRun pf (bucketGroup h ! ?i h) (drop_bit (unat (indexBits h)) (hash s))"
  define h1 where "h1 = hll\<lparr>bucketGroup := (bucketGroup hll)[?i hll := ?u hll]\<rparr>"
  note a = Add_eq [OF assms]
  have 1: "Add pf hll s = Inr h1"
    unfolding h1_def by (rule a(2))
  have v1: "valid_estimator h1"
    using assms by (simp add: valid_estimator_def h1_def)
  have ib: "indexBits h1 = indexBits hll"
    by (simp add: h1_def)
  have "bucketGroup h1 ! ?i h1 = ?u hll"
    using a(1) [of s] by (simp add: h1_def)
  then have "?u h1 = ?u hll"
    by (simp add: ib updateLongestRun_idem)
  then have "h1\<lparr>bucketGroup := (bucketGroup h1)[?i h1 := ?u h1]\<rparr> = h1"
    by (simp add: h1_def)
  then have 2: "Add pf h1 s = Inr h1"
    using Add_eq(2) [OF v1, of pf s] by simp
  have "AddAll pf h1 (replicate n s) = Inr h1" for n
    by (induction n) (simp_all add: 2)
  with 1 2 show ?thesis
    by simp
qed

text \<open>
  Adding \<open>"u"\<close> twice to the empty estimator of precision 4.
\<close>

theorem add_is_idempotent_witness:
  "\<exists>h1 h2. Add amd64 \<lparr> constant = Finite 0.673, indexBits = 4, mBuckets = 16,
        bucketGroup = replicate 16 \<lparr>cardinalityEstimation = 0\<rparr> \<rparr> ''u'' = Inr h1
    \<and> Add amd64 h1 ''u'' = Inr h2 \<and> h2 = h1
    \<and> registers h2 = registers h1
    \<and> EstimateCardinality amd64 h2 = EstimateCardinality amd64 h1
    \<and> (\<forall>n. AddAll amd64 h1 (replicate n ''u'') = Inr h1)"
  using add_is_idempotent [of "\<lparr> constant = Finite 0.673, indexBits = 4, mBuckets = 16,
        bucketGroup = replicate 16 \<lparr>cardinalityEstimation = 0\<rparr> \<rparr>" amd64 "''u''"]
  by (simp add: valid_estimator_def alpha_m_def)

section \<open>The estimate when no register is 0, and the rank of the remainder 0\<close>

lemma replicate_16: "replicate 16 x = [x, x, x, x, x, x, x, x, x, x, x, x, x, x, x, x]"
  by (simp add: eval_nat_numeral)

lemma Add_nonzero_remainder:
  assumes "indexBits hll \<le> 32"
    and "unat (hash s AND mask (unat (indexBits hll))) < length (bucketGroup hll)"
    and "drop_bit (unat (indexBits hll)) (hash s) \<noteq> 0"
  shows "Add pf hll s =
    Inr (hll\<lparr>bucketGroup := (bucketGroup hll)[unat (hash s AND mask (unat (indexBits hll))) :=
      (bucketGroup hll ! unat (hash s AND mask (unat (indexBits hll))))
        \<lparr>cardinalityEstimation :=
           max (cardinalityEstimation (bucketGroup hll ! unat (hash s AND mask (unat (indexBits hll)))))
             (int (trailing_zero_count (drop_bit (unat (indexBits hll)) (hash s))) + 1)\<rparr>]\<rparr>)"
proof -
  have "updateLongestRun pf b (drop_bit (unat (indexBits hll)) (hash s)) =
      b\<lparr>cardinalityEstimation := max (cardinalityEstimation b)
        (int (trailing_zero_count (drop_bit (unat (indexBits hll)) (hash s))) + 1)\<rparr>" for b
    by (simp add: updateLongestRun_def rank_nonzero [OF assms(3)] max_def)
  then show ?thesis
    using assms(2) by (simp add: Add_def Let_def splitBinary_eq [OF assms(1)])
qed

lemma sixteen_values_fill_registers:
  "AddAll pf \<lparr> constant = Finite 0.673, indexBits = 4, mBuckets = 16,
        bucketGroup = replicate 16 \<lparr>cardinalityEstimation = 0\<rparr> \<rparr>
     [''u'', ''n'', ''c'', ''d'', ''y'', ''r'', ''w'', ''h'', ''m'', ''f'', ''ar'', ''au'',
      ''q'', ''j'', ''o'', ''ai'']
   = Inr \<lparr> constant = Finite 0.673, indexBits = 4, mBuckets = 16,
        bucketGroup = replicate 16 \<lparr>cardinalityEstimation = 1\<rparr> \<rparr>"
  by (simp add: replicate_16 Add_nonzero_remainder hash_def mask_numeral trailing_zero_count_def
      count_trailing_zeros_numeral)


lemma NewHyperLogLog_4:
  "NewHyperLogLog pf 4 = Inr \<lparr> constant = Finite 0.673, indexBits = 4, mBuckets = 16,
        bucketGroup = replicate 16 \<lparr>cardinalityEstimation = 0\<rparr> \<rparr>"
  using NewHyperLogLog_valid [of 4 pf] by (simp add: alpha_m_def)

lemma all_ones_estimator:
  defines "h \<equiv> \<lparr> constant = Finite 0.673, indexBits = 4, mBuckets = 16,
        bucketGroup = replicate 16 \<lparr>cardinalityEstimation = 1\<rparr> \<rparr>"
  shows "valid_estimator h" and "registers_in_range h" and "zero_registers h = 0"
    and "raw_estimate h = 21.536" and "go_trunc (raw_estimate h) = 21"
    and "correct (bucketGroup h) (Finite (raw_estimate h)) = PosInf"
    and "EstimateCardinality pf h = sint (conv_int64 pf PosInf)"
proof -
  show v: "valid_estimator h"
    by (simp add: h_def valid_estimator_def alpha_m_def)
  show r: "registers_in_range h"
    by (simp add: h_def registers_in_range_def registers_def list_all_iff)
  show z: "zero_registers h = 0"
    by (simp add: h_def zero_registers_def registers_def)
  show e: "raw_estimate h = 21.536"
    by (simp add: h_def raw_estimate_def registers_def alpha_m_def sum_list_replicate
        powr_minus_divide)
  show "go_trunc (raw_estimate h) = 21"
    by (simp add: e go_trunc_def)
  have "raw_estimate h \<le> 2.5 * 2 ^ unat (indexBits h)"
    by (simp add: e) (simp add: h_def)
  then show "correct (bucketGroup h) (Finite (raw_estimate h)) = PosInf"
    and "EstimateCardinality pf h = sint (conv_int64 pf PosInf)"
    by (rule EstimateCardinality_no_zero_register [OF v r z])+
qed

text \<open>
  Claim C1, evaluated. The estimator of precision 4 after \<open>Add\<close> of sixteen values whose
  hashes fall into the sixteen buckets with an odd remainder: every register is 1, no
  register is 0 (\<open>V = 0\<close>), and the raw estimate is \<open>E = 21.536\<close>, below \<open>2.5 * 16\<close>. The
  correction is not skipped: \<open>correct\<close> divides by the count 0 and returns \<open>+Inf\<close>, and
  \<open>EstimateCardinality\<close> returns the conversion of \<open>+Inf\<close> to \<open>int64\<close>, which on amd64 is
  \<open>-9223372036854775808\<close>, where the specification has the raw estimate returned, 21 once truncated.
\<close>

theorem small_estimate_without_zero_register_not_returned:
  "case NewHyperLogLog amd64 4 of Inl e \<Rightarrow> False
   | Inr h0 \<Rightarrow>
      (case AddAll amd64 h0 [''u'', ''n'', ''c'', ''d'', ''y'', ''r'', ''w'', ''h'', ''m'', ''f'',
              ''ar'', ''au'', ''q'', ''j'', ''o'', ''ai''] of Inl e \<Rightarrow> False
       | Inr h \<Rightarrow>
           registers h = replicate 16 1 \<and> zero_registers h = 0
           \<and> raw_estimate h = 21.536 \<and> raw_estimate h \<le> 2.5 * 16
           \<and> countZeroBuckets (bucketGroup h) = Finite 0
           \<and> correct (bucketGroup h) (Finite (raw_estimate h)) = PosInf
           \<and> go_trunc (raw_estimate h) = 21
           \<and> EstimateCardinality amd64 h = - 9223372036854775808)"
proof -
  let ?h = "\<lparr> constant = Finite 0.673, indexBits = 4, mBuckets = 16,
        bucketGroup = replicate 16 \<lparr>cardinalityEstimation = 1\<rparr> \<rparr>"
  have "EstimateCardinality amd64 ?h = sint (conv_int64 amd64 PosInf)"
    by (rule all_ones_estimator(7))
  then have "EstimateCardinality amd64 ?h = - 9223372036854775808"
    by (simp add: amd64_def)
  moreover have "registers ?h = replicate 16 1"
    by (simp add: registers_def)
  moreover have "countZeroBuckets (bucketGroup ?h) = Finite 0"
    by (simp add: countZeroBuckets_eq)
  moreover have "raw_estimate ?h \<le> 2.5 * 16"
    unfolding all_ones_estimator(4) by simp
  ultimately have c: "registers ?h = replicate 16 1 \<and> zero_registers ?h = 0
      \<and> raw_estimate ?h = 21.536 \<and> raw_estimate ?h \<le> 2.5 * 16
      \<and> countZeroBuckets (bucketGroup ?h) = Finite 0
      \<and> correct (bucketGroup ?h) (Finite (raw_estimate ?h)) = PosInf
      \<and> go_trunc (raw_estimate ?h) = 21
      \<and> EstimateCardinality amd64 ?h = - 9223372036854775808"
    using all_ones_estimator(3,4,5,6) by blast
  show ?thesis
    unfolding NewHyperLogLog_4 sixteen_values_fill_registers sum.case by (rule c)
qed

text \<open>
  Claim C3, evaluated. For the same sixteen values, \<open>EstimateCardinality\<close> on amd64
  returns a negative number.
\<close>

theorem estimate_negative_on_amd64:
  "case NewHyperLogLog amd64 4 of Inl e \<Rightarrow> False
   | Inr h0 \<Rightarrow>
      (case AddAll amd64 h0 [''u'', ''n'', ''c'', ''d'', ''y'', ''r'', ''w'', ''h'', ''m'', ''f'',
              ''ar'', ''au'', ''q'', ''j'', ''o'', ''ai''] of Inl e \<Rightarrow> False
       | Inr h \<Rightarrow> EstimateCardinality amd64 h < 0)"
proof -
  let ?h = "\<lparr> constant = Finite 0.673, indexBits = 4, mBuckets = 16,
        bucketGroup = replicate 16 \<lparr>cardinalityEstimation = 1\<rparr> \<rparr>"
  have "EstimateCardinality amd64 ?h = sint (conv_int64 amd64 PosInf)"
    by (rule all_ones_estimator(7))
  then have c: "EstimateCardinality amd64 ?h < 0"
    by (simp add: amd64_def)
  show ?thesis
    unfolding NewHyperLogLog_4 sixteen_values_fill_registers sum.case by (rule c)
qed

lemma updateLongestRun_zero_amd64:
  "wrap64 (findRun amd64 0 + 1) = - 9223372036854775807"
  "updateLongestRun amd64 \<lparr>cardinalityEstimation = 0\<rparr> 0 = \<lparr>cardinalityEstimation = 0\<rparr>"
  by (simp_all add: updateLongestRun_def findRun_zero amd64_def wrap64_def)

text \<open>
  Claim C2, evaluated. At precision 16 the hash of \<open>"cdhf"\<close> is 13480, so its remainder is 0.
  \<open>findRun\<close> takes \<open>Log2\<close> of 0, which is \<open>-Inf\<close>, and converts it to \<open>int\<close>: there is no
  fallback rank. On amd64 the rank is \<open>-9223372036854775807\<close>, and \<open>Add\<close> leaves every
  register as it was.
\<close>

theorem zero_remainder_rank_on_amd64:
  "case NewHyperLogLog amd64 16 of Inl e \<Rightarrow> False
   | Inr h0 \<Rightarrow>
       splitBinary amd64 h0 (hash ''cdhf'') = (13480, 0)
       \<and> Log2 (float64_of_uint32 (0 AND - 0)) = NegInf
       \<and> findRun amd64 0 + 1 = - 9223372036854775807
       \<and> Add amd64 h0 ''cdhf'' = Inr h0"
proof -
  define h0 where "h0 = \<lparr> constant = Finite (alpha_m (unat (16::uint32))), indexBits = 16,
      mBuckets = 2 ^ unat (16::uint32),
      bucketGroup = replicate (2 ^ unat (16::uint32)) \<lparr>cardinalityEstimation = 0\<rparr> \<rparr>"
  have new: "NewHyperLogLog amd64 16 = Inr h0"
    unfolding h0_def by (rule NewHyperLogLog_valid) simp_all
  have v: "valid_estimator h0"
    unfolding h0_def by (rule fresh_estimator) simp_all
  have ib: "indexBits h0 = 16"
    by (simp add: h0_def)
  have split: "splitBinary amd64 h0 (hash ''cdhf'') = (13480, 0)"
    by (simp add: splitBinary_eq ib hash_def mask_numeral)
  have i: "unat (hash ''cdhf'' AND mask (unat (indexBits h0))) = 13480"
    and w: "drop_bit (unat (indexBits h0)) (hash ''cdhf'') = 0"
    by (simp_all add: ib hash_def mask_numeral)
  have "bucketGroup h0 ! 13480 = \<lparr>cardinalityEstimation = 0\<rparr>"
    by (simp add: h0_def)
  then have "updateLongestRun amd64 (bucketGroup h0 ! 13480) 0 = bucketGroup h0 ! 13480"
    by (simp add: updateLongestRun_zero_amd64(2))
  then have "(bucketGroup h0)[13480 := updateLongestRun amd64 (bucketGroup h0 ! 13480) 0]
      = bucketGroup h0"
    by (simp only: list_update_id)
  then have add: "Add amd64 h0 ''cdhf'' = Inr h0"
    using Add_eq(2) [OF v, of amd64 "''cdhf''"] by (simp add: i w)
  have "findRun amd64 0 + 1 = - 9223372036854775807"
    by (simp add: findRun_zero amd64_def)
  with split add show ?thesis
    by (simp add: new float64_of_uint32_def)
qed

section \<open>The small-range correction\<close>

lemma correct_small_range:
  assumes "valid_estimator hll" and "0 < zero_registers hll"
    and "raw_estimate hll \<le> 2.5 * 2 ^ unat (indexBits hll)"
  shows "correct (bucketGroup hll) (Finite (raw_estimate hll)) =
    Finite (2 ^ unat (indexBits hll)
      * ln (2 ^ unat (indexBits hll) / real (zero_registers hll)))"
proof -
  note m = bucket_count_bounds [OF assms(1)]
  have nz: "filter (\<lambda>b. cardinalityEstimation b = 0) (bucketGroup hll) \<noteq> []"
    using assms(2) by (simp add: zero_registers_eq)
  show ?thesis
    using assms(3)
    by (simp add: correct_Finite smallRangeCorrection_pos [OF m(4) nz] m(1) zero_registers_eq)
qed

lemma correct_mid_range:
  assumes "valid_estimator hll" and "2.5 * 2 ^ unat (indexBits hll) < raw_estimate hll"
  shows "correct (bucketGroup hll) (Finite (raw_estimate hll)) = Finite (raw_estimate hll)"
  using assms(2) by (simp add: correct_Finite bucket_count_bounds(1) [OF assms(1)])

lemma EstimateCardinality_mid_range:
  assumes "valid_estimator hll" and "registers_in_range hll"
    and "2.5 * 2 ^ unat (indexBits hll) < raw_estimate hll"
  shows "EstimateCardinality pf hll = go_trunc (raw_estimate hll)"
    and "0 \<le> EstimateCardinality pf hll"
proof -
  have "0 \<le> raw_estimate hll" "raw_estimate hll < 2 ^ 63"
    using raw_estimate_bounds(2,3) [OF assms(1,2)] by simp_all
  then have "int_of_float64 pf (Finite (raw_estimate hll)) = go_trunc (raw_estimate hll)"
    and "0 \<le> go_trunc (raw_estimate hll)"
    by (rule int_of_float64_in_range)+
  then show "EstimateCardinality pf hll = go_trunc (raw_estimate hll)"
    and "0 \<le> EstimateCardinality pf hll"
    by (simp_all only: EstimateCardinality_correct [OF assms(1,2)]
        correct_mid_range [OF assms(1,3)])
qed

text \<open>
  Claim C4. With \<open>E\<close> the raw estimate \<open>alpha_m * m^2 / (sum of 2^(-register))\<close>, \<open>m = 2 ^ p\<close>
  and \<open>V\<close> the count of registers at 0, in every state of a valid estimator whose registers
  are in range: when \<open>E \<le> 2.5 * m\<close> and \<open>V > 0\<close>, \<open>correct\<close> returns \<open>m * ln (m / V)\<close> and
  \<open>EstimateCardinality\<close> returns it truncated to an integer; when \<open>E > 2.5 * m\<close>,
  \<open>correct\<close> returns \<open>E\<close> unmodified and \<open>EstimateCardinality\<close> returns \<open>E\<close> truncated.
  When \<open>E \<le> 2.5 * m\<close> and \<open>V = 0\<close> the correction is applied as well, and gives \<open>+Inf\<close>.
\<close>

theorem small_range_correction_applies:
  assumes "valid_estimator hll" and "registers_in_range hll"
  shows "(raw_estimate hll \<le> 2.5 * 2 ^ unat (indexBits hll) \<and> 0 < zero_registers hll \<longrightarrow>
      correct (bucketGroup hll) (Finite (raw_estimate hll)) =
        Finite (2 ^ unat (indexBits hll)
          * ln (2 ^ unat (indexBits hll) / real (zero_registers hll)))
      \<and> EstimateCardinality pf hll =
        go_trunc (2 ^ unat (indexBits hll)
          * ln (2 ^ unat (indexBits hll) / real (zero_registers hll))))
    \<and> (raw_estimate hll \<le> 2.5 * 2 ^ unat (indexBits hll) \<and> zero_registers hll = 0 \<longrightarrow>
      correct (bucketGroup hll) (Finite (raw_estimate hll)) = PosInf)
    \<and> (2.5 * 2 ^ unat (indexBits hll) < raw_estimate hll \<longrightarrow>
      correct (bucketGroup hll) (Finite (raw_estimate hll)) = Finite (raw_estimate hll)
      \<and> EstimateCardinality pf hll = go_trunc (raw_estimate hll))"
  using EstimateCardinality_zero_registers(1) [OF assms, of pf]
    correct_small_range [OF assms(1)] correct_mid_range [OF assms(1)]
    EstimateCardinality_mid_range(1) [OF assms, of pf]
    EstimateCardinality_no_zero_register(1) [OF assms]
  by simp

text \<open>
  Precision 4 with one register at 1 and fifteen at 0 (the correction applies), and
  with one register at 0 and fifteen at 5 (the raw estimate, 117.3, is returned).
\<close>

theorem small_range_correction_applies_witness:
  "EstimateCardinality amd64
     \<lparr> constant = Finite 0.673, indexBits = 4, mBuckets = 16,
       bucketGroup = \<lparr>cardinalityEstimation = 1\<rparr> # replicate 15 \<lparr>cardinalityEstimation = 0\<rparr> \<rparr>
     = go_trunc (16 * ln (16 / 15))
   \<and> EstimateCardinality amd64
     \<lparr> constant = Finite 0.673, indexBits = 4, mBuckets = 16,
       bucketGroup = \<lparr>cardinalityEstimation = 0\<rparr> # replicate 15 \<lparr>cardinalityEstimation = 5\<rparr> \<rparr>
     = 117"
  using small_range_correction_applies [of
     "\<lparr> constant = Finite 0.673, indexBits = 4, mBuckets = 16,
       bucketGroup = \<lparr>cardinalityEstimation = 1\<rparr> # replicate 15 \<lparr>cardinalityEstimation = 0\<rparr> \<rparr>" amd64]
    small_range_correction_applies [of
     "\<lparr> constant = Finite 0.673, indexBits = 4, mBuckets = 16,
       bucketGroup = \<lparr>cardinalityEstimation = 0\<rparr> # replicate 15 \<lparr>cardinalityEstimation = 5\<rparr> \<rparr>" amd64]
  by (simp add: valid_estimator_def registers_in_range_def registers_def zero_registers_def
      raw_estimate_def alpha_m_def sum_list_replicate powr_minus_divide go_trunc_def list_all_iff)

section \<open>Registers over a sequence of \<open>Add\<close> calls\<close>

lemma Add_nonneg:
  assumes "valid_estimator hll" and "\<forall>r \<in> set (registers hll). 0 \<le> r"
  shows "\<exists>hll'. Add pf hll s = Inr hll' \<and> valid_estimator hll'
    \<and> (\<forall>r \<in> set (registers hll'). 0 \<le> r) \<and> indexBits hll' = indexBits hll
    \<and> length (registers hll') = length (registers hll)
    \<and> (\<forall>j < length (registers hll). registers hll ! j \<le> registers hll' ! j)
    \<and> registers hll' = (registers hll)[unat (hash s AND mask (unat (indexBits hll))) :=
      max (registers hll ! unat (hash s AND mask (unat (indexBits hll))))
        (wrap64 (findRun pf (drop_bit (unat (indexBits hll)) (hash s)) + 1))]"
proof -
  let ?p = "unat (indexBits hll)"
  let ?i = "unat (hash s AND mask ?p)"
  let ?rank = "wrap64 (findRun pf (drop_bit ?p (hash s)) + 1)"
  obtain hll' where h: "Add pf hll s = Inr hll'" "valid_estimator hll'"
      "indexBits hll' = indexBits hll"
      "registers hll' = (registers hll)[?i := max (registers hll ! ?i) ?rank]"
    using assms(1) by (rule Add_valid)
  have i: "?i < length (registers hll)"
    using Add_eq(1) [OF assms(1)] by (simp add: registers_def)
  then have "0 \<le> registers hll ! ?i"
    using assms(2) by simp
  then have new: "0 \<le> max (registers hll ! ?i) ?rank"
    by simp
  have "0 \<le> r" if "r \<in> set (registers hll')" for r
  proof -
    from that have "r \<in> insert (max (registers hll ! ?i) ?rank) (set (registers hll))"
      unfolding h(4) using set_update_subset_insert by (rule subsetD [rotated])
    with new assms(2) show ?thesis
      by blast
  qed
  moreover have "registers hll ! j \<le> registers hll' ! j" if "j < length (registers hll)" for j
    using that i by (simp add: h(4) nth_list_update)
  moreover have "length (registers hll') = length (registers hll)"
    by (simp add: h(4))
  ultimately show ?thesis
    using h by blast
qed

lemma AddAll_nonneg:
  assumes "valid_estimator hll" and "\<forall>r \<in> set (registers hll). 0 \<le> r"
  shows "\<exists>hll'. AddAll pf hll ss = Inr hll' \<and> valid_estimator hll'
    \<and> (\<forall>r \<in> set (registers hll'). 0 \<le> r) \<and> indexBits hll' = indexBits hll
    \<and> length (registers hll') = length (registers hll)
    \<and> (\<forall>j < length (registers hll). registers hll ! j \<le> registers hll' ! j)"
  using assms
proof (induction ss arbitrary: hll)
  case Nil
  then show ?case by simp
next
  case (Cons s ss)
  obtain h1 where h1: "Add pf hll s = Inr h1" "valid_estimator h1"
      "\<forall>r \<in> set (registers h1). 0 \<le> r"
      "indexBits h1 = indexBits hll" "length (registers h1) = length (registers hll)"
      "\<forall>j < length (registers hll). registers hll ! j \<le> registers h1 ! j"
    using Add_nonneg [OF Cons.prems, where s = s] by blast
  obtain h2 where h2: "AddAll pf h1 ss = Inr h2" "valid_estimator h2"
      "\<forall>r \<in> set (registers h2). 0 \<le> r"
      "indexBits h2 = indexBits h1" "length (registers h2) = length (registers h1)"
      "\<forall>j < length (registers h1). registers h1 ! j \<le> registers h2 ! j"
    using Cons.IH [OF h1(2,3)] by blast
  have "registers hll ! j \<le> registers h2 ! j" if "j < length (registers hll)" for j
    using h1(6) h2(6) that by (simp add: h1(5)) (meson order_trans)
  with h1(1) h2(1,2,3) h1(4,5) h2(4,5) show ?case
    by simp
qed

text \<open>
  Claim C9. For an estimator returned by \<open>NewHyperLogLog\<close>, after any sequence \<open>ss\<close> of
  \<open>Add\<close> calls and for one more \<open>Add\<close> of any value \<open>s\<close>: no call panics, the bucket index
  of \<open>s\<close> is below \<open>m = 2 ^ p\<close>, there are \<open>m\<close> registers before and after, every register
  is nonnegative and does not decrease, and the register of \<open>s\<close> becomes the maximum of
  its value and the rank of \<open>s\<close>. Every register is at most \<open>33 - p\<close> on a platform that
  converts \<open>-Inf\<close> to a negative \<open>int\<close> (the rank of the remainder 0 is that conversion
  plus 1).
\<close>

theorem add_sequence_register_invariants:
  assumes "NewHyperLogLog pf p = Inr h0"
  shows "\<exists>h h'. AddAll pf h0 ss = Inr h \<and> Add pf h s = Inr h'
    \<and> unat (fst (splitBinary pf h (hash s))) < 2 ^ unat p
    \<and> length (registers h) = 2 ^ unat p \<and> length (registers h') = 2 ^ unat p
    \<and> (\<forall>j < 2 ^ unat p. 0 \<le> registers h ! j \<and> registers h ! j \<le> registers h' ! j)
    \<and> registers h' = (registers h)[unat (fst (splitBinary pf h (hash s))) :=
          max (registers h ! unat (fst (splitBinary pf h (hash s))))
            (wrap64 (findRun pf (snd (splitBinary pf h (hash s))) + 1))]
    \<and> (sint (conv_int64 pf NegInf) < 0 \<longrightarrow>
          (\<forall>j < 2 ^ unat p. registers h ! j \<le> 33 - int (unat p)
             \<and> registers h' ! j \<le> 33 - int (unat p)))"
proof -
  note h0 = NewHyperLogLog_Inr [OF assms(1)]
  have nn0: "\<forall>r \<in> set (registers h0). 0 \<le> r"
    by (simp add: h0(4))
  obtain h where h: "AddAll pf h0 ss = Inr h" "valid_estimator h"
      "\<forall>r \<in> set (registers h). 0 \<le> r"
      "indexBits h = p" "length (registers h) = 2 ^ unat p"
    using AddAll_nonneg [OF h0(1) nn0, of pf ss] by (auto simp add: h0(3,4))
  obtain h' where h': "Add pf h s = Inr h'" "indexBits h' = p"
      "length (registers h') = 2 ^ unat p"
      "\<forall>j < 2 ^ unat p. registers h ! j \<le> registers h' ! j"
      "registers h' = (registers h)[unat (hash s AND mask (unat p)) :=
        max (registers h ! unat (hash s AND mask (unat p)))
          (wrap64 (findRun pf (drop_bit (unat p) (hash s)) + 1))]"
    using Add_nonneg [OF h(2,3), of pf s] by (auto simp add: h(4,5))
  have "p \<le> 16"
    using h(2,4) by (simp add: valid_estimator_def)
  then have "indexBits h \<le> 32"
    unfolding h(4) by (rule uint32_le_32)
  then have split: "splitBinary pf h (hash s) = (hash s AND mask (unat p), drop_bit (unat p) (hash s))"
    unfolding h(4) [symmetric] by (rule splitBinary_eq)
  have idx: "unat (hash s AND mask (unat p)) < 2 ^ unat p"
    using Add_eq(1) [OF h(2), of s] h(5) by (simp add: h(4) registers_def)
  have lo: "0 \<le> registers h ! j" if "j < 2 ^ unat p" for j
    using that h(3) by (simp add: h(5))
  have hi: "registers h ! j \<le> 33 - int (unat p) \<and> registers h' ! j \<le> 33 - int (unat p)"
    if pf: "sint (conv_int64 pf NegInf) < 0" and j: "j < 2 ^ unat p" for j
  proof -
    obtain k where k: "AddAll pf h0 ss = Inr k" "valid_estimator k" "registers_in_range k"
      using AddAll_in_range [OF h0(1,2) pf, of ss] by blast
    from k(1) h(1) have kh: "k = h"
      by simp
    obtain k' where k': "Add pf h s = Inr k'" "registers_in_range k'"
      using Add_in_range [OF k(2,3) pf, of s] by (auto simp add: kh)
    from k'(1) h'(1) have kh': "k' = h'"
      by simp
    have "registers h ! j \<in> set (registers h)" "registers h' ! j \<in> set (registers h')"
      using j by (simp_all add: h(5) h'(3))
    then show ?thesis
      using k(3) k'(2)
      by (simp add: kh kh' registers_in_range_def list_all_iff h(4) h'(2) del: of_nat_unat)
  qed
  from h(1) h'(1) idx h(5) h'(3) lo h'(4) h'(5) hi show ?thesis
    by (simp add: split)
qed

text \<open>
  Precision 4 on amd64, after \<open>Add\<close> of \<open>"u"\<close> and \<open>"cdhf"\<close>, for \<open>Add\<close> of \<open>"n"\<close>.
\<close>

theorem add_sequence_register_invariants_witness:
  "\<exists>h h'. AddAll amd64
       \<lparr> constant = Finite (alpha_m (unat (4::uint32))), indexBits = 4, mBuckets = 2 ^ unat (4::uint32),
         bucketGroup = replicate (2 ^ unat (4::uint32)) \<lparr>cardinalityEstimation = 0\<rparr> \<rparr>
       [''u'', ''cdhf''] = Inr h
    \<and> Add amd64 h ''n'' = Inr h'
    \<and> unat (fst (splitBinary amd64 h (hash ''n''))) < 2 ^ unat (4::uint32)
    \<and> length (registers h) = 2 ^ unat (4::uint32) \<and> length (registers h') = 2 ^ unat (4::uint32)
    \<and> (\<forall>j < 2 ^ unat (4::uint32). 0 \<le> registers h ! j \<and> registers h ! j \<le> registers h' ! j)
    \<and> registers h' = (registers h)[unat (fst (splitBinary amd64 h (hash ''n''))) :=
          max (registers h ! unat (fst (splitBinary amd64 h (hash ''n''))))
            (wrap64 (findRun amd64 (snd (splitBinary amd64 h (hash ''n''))) + 1))]
    \<and> (\<forall>j < 2 ^ unat (4::uint32). registers h ! j \<le> 33 - int (unat (4::uint32))
             \<and> registers h' ! j \<le> 33 - int (unat (4::uint32)))"
proof -
  have a: "NewHyperLogLog amd64 4 =
    Inr \<lparr> constant = Finite (alpha_m (unat (4::uint32))), indexBits = 4, mBuckets = 2 ^ unat (4::uint32),
         bucketGroup = replicate (2 ^ unat (4::uint32)) \<lparr>cardinalityEstimation = 0\<rparr> \<rparr>"
    by (rule NewHyperLogLog_valid) simp_all
  have b: "sint (conv_int64 amd64 NegInf) < 0"
    by (simp add: amd64_def)
  show ?thesis
    using add_sequence_register_invariants [OF a, of "[''u'', ''cdhf'']" "''n''"] b
    by blast
qed

end
